theory Spec2Isabelle
  imports Complex_Main
begin

section \<open>Data model\<close>

text \<open>
  The planner's numbers are C++ \<^verbatim>\<open>double\<close>s. They are modelled as real numbers: the
  arithmetic of the model is exact, and rounding, infinities and NaN are outside it.
  Where the source divides by a value that can be zero the model says so explicitly
  (\<open>NonFinite\<close> below). Counters of type \<^verbatim>\<open>long\<close> are modelled as unbounded integers.

  Belief nodes, actions, observations, states and history sequences are opaque to the
  solver, which only holds pointers to them; they are modelled by identifiers.
\<close>

type_synonym node_id = nat
type_synonym action = nat
type_synonym observation = nat
type_synonym state_id = nat
type_synonym seq_id = nat

text \<open>
  Ways in which a call leaves the model: \<^verbatim>\<open>std::exit(n)\<close>; undefined behaviour
  (dereferencing a null or dangling pointer, moving an iterator past the end of a
  vector); a division by zero, after which the doubles of the source are infinite or
  NaN; and a recursion that has used up the depth it was given.
\<close>

datatype fault = ProcessExit nat | NullDereference | OutOfRange | NonFinite | OutOfFuel

text \<open>The bits of \<^verbatim>\<open>ChangeFlags\<close>; a flag word is the set of its bits.\<close>

datatype change_flag =
  REWARD | TRANSITION | OBSERVATION | OBSERVATION_BEFORE | ADDSTATE | DELSTATE | DELETED

text \<open>
  \<^verbatim>\<open>HistoryEntry\<close>: the fields the solver reads and writes. \<^verbatim>\<open>action_\<close> and
  \<^verbatim>\<open>observation_\<close> are \<^verbatim>\<open>unique_ptr\<close>s, null until a step has been taken from the
  entry. Every entry is registered to a belief node as soon as it is made, so the owning
  node is not nullable here.
\<close>

record history_entry =
  stateInfo :: state_id
  discount :: real
  reward :: real
  action :: "action option"
  observation :: "observation option"
  owningBeliefNode :: node_id
  totalDiscountedReward :: real
  hasBeenBackedUp :: bool
  changeFlags :: "change_flag set"

text \<open>
  \<^verbatim>\<open>HistorySequence\<close>: its entries, \<^verbatim>\<open>isTerminal_\<close> and \<^verbatim>\<open>invalidLinksStartId_\<close>.
\<close>

record history_sequence =
  histSeq :: "history_entry list"
  isTerminal :: bool
  invalidLinksStartId :: int

text \<open>
  The statistics an \<^verbatim>\<open>ActionMapping\<close> keeps for one action of one belief node, and
  the table of all of them, keyed by belief node and action.
\<close>

record action_entry =
  totalQValue :: real
  visitCount :: int

type_synonym q_table = "node_id \<times> action \<Rightarrow> action_entry"

text \<open>
  Modelled from the spec: \<^verbatim>\<open>BeliefNode::updateQValue(action, deltaQ, deltaN)\<close>, whose
  body (with the \<^verbatim>\<open>ActionMapping\<close> it delegates to) is not among the sources. The
  spec's \<open>updateQ(action, \<Delta>, n)\<close> adds \<open>\<Delta>\<close> to the Q sum of the action and \<open>n\<close> to
  its visit count; the two-argument call of the source is the one with no visit
  increment.
\<close>

definition updateQValue :: "q_table \<Rightarrow> node_id \<Rightarrow> action \<Rightarrow> real \<Rightarrow> int \<Rightarrow> q_table" where
  "updateQValue q n a deltaQ deltaN =
     q((n, a) := \<lparr>totalQValue = totalQValue (q (n, a)) + deltaQ,
                   visitCount = visitCount (q (n, a)) + deltaN\<rparr>)"

section \<open>Vector equality\<close>

text \<open>
  \<^verbatim>\<open>Vector::equals\<close> walks the receiver's vector \<open>v1\<close> with \<open>i1\<close> and the other
  vector \<open>v2\<close> with \<open>i2\<close>, in step, until \<open>i1\<close> reaches the end of \<open>v1\<close>. Nothing
  checks \<open>i2\<close>: when \<open>v2\<close> is the shorter one the loop reads past its end.
\<close>

fun equals :: "real list \<Rightarrow> real list \<Rightarrow> fault + bool" where
  "equals [] v2 = Inr True"
| "equals (x # v1) [] = Inl OutOfRange"
| "equals (x # v1) (y # v2) = (if x \<noteq> y then Inr False else equals v1 v2)"

section \<open>Backup and its undoing\<close>

text \<open>
  The loop of \<^verbatim>\<open>Solver::backup\<close> over the entries before the last, from the
  second-last to the first: the list argument is in that (reverse) order.
  \<open>totalReward\<close> is the running total.
\<close>

fun backupLoop ::
  "real \<Rightarrow> q_table \<Rightarrow> history_entry list \<Rightarrow> fault + (q_table \<times> history_entry list)" where
  "backupLoop totalReward q [] = Inr (q, [])"
| "backupLoop totalReward q (e # es) =
     (let newTotal = discount e * reward e + totalReward in
      case action e of
        None \<Rightarrow> Inl NullDereference
      | Some a \<Rightarrow>
          (if hasBeenBackedUp e then
             (case backupLoop newTotal
                     (updateQValue q (owningBeliefNode e) a
                        (newTotal - totalDiscountedReward e) 0) es of
                Inl f \<Rightarrow> Inl f
              | Inr (q', es') \<Rightarrow> Inr (q', e\<lparr>totalDiscountedReward := newTotal\<rparr> # es'))
           else
             (case backupLoop newTotal
                     (updateQValue q (owningBeliefNode e) a newTotal 1) es of
                Inl f \<Rightarrow> Inl f
              | Inr (q', es') \<Rightarrow>
                  Inr (q', e\<lparr>totalDiscountedReward := newTotal,
                             hasBeenBackedUp := True\<rparr> # es'))))"

text \<open>
  \<^verbatim>\<open>Solver::backup\<close>. The last entry keeps its total when it has no action, and gets
  \<open>discount * reward\<close> when it has one; its statistics and flag are not touched.
  An empty sequence has no last entry to dereference.
\<close>

definition backup :: "q_table \<Rightarrow> history_entry list \<Rightarrow> fault + (q_table \<times> history_entry list)" where
  "backup q entries =
     (case rev entries of
        [] \<Rightarrow> Inl OutOfRange
      | l # rest \<Rightarrow>
          (let l' = (if action l = None then l
                     else l\<lparr>totalDiscountedReward := discount l * reward l\<rparr>)
           in case backupLoop (totalDiscountedReward l') q rest of
                Inl f \<Rightarrow> Inl f
              | Inr (q', rest') \<Rightarrow> Inr (q', rev (l' # rest'))))"

text \<open>
  \<^verbatim>\<open>Solver::undoBackup\<close>: the same walk. An entry that was backed up gives its total
  back and loses a visit; one that was not is reported on \<^verbatim>\<open>cerr\<close> and skipped.
  The third component of the result is what was written to \<^verbatim>\<open>cerr\<close>.
\<close>

fun undoBackupLoop ::
  "q_table \<Rightarrow> history_entry list \<Rightarrow> fault + (q_table \<times> history_entry list \<times> string list)" where
  "undoBackupLoop q [] = Inr (q, [], [])"
| "undoBackupLoop q (e # es) =
     (if hasBeenBackedUp e then
        (case action e of
           None \<Rightarrow> Inl NullDereference
         | Some a \<Rightarrow>
             (case undoBackupLoop
                     (updateQValue q (owningBeliefNode e) a (- totalDiscountedReward e) (- 1)) es of
                Inl f \<Rightarrow> Inl f
              | Inr (q', es', errs) \<Rightarrow> Inr (q', e\<lparr>hasBeenBackedUp := False\<rparr> # es', errs)))
      else
        (case undoBackupLoop q es of
           Inl f \<Rightarrow> Inl f
         | Inr (q', es', errs) \<Rightarrow>
             Inr (q', e # es', ''ERROR: Backup not yet done; cannot undo!'' # errs)))"

definition undoBackup ::
  "q_table \<Rightarrow> history_entry list \<Rightarrow> fault + (q_table \<times> history_entry list \<times> string list)" where
  "undoBackup q entries =
     (case rev entries of
        [] \<Rightarrow> Inl OutOfRange
      | l # rest \<Rightarrow>
          (case undoBackupLoop q rest of
             Inl f \<Rightarrow> Inl f
           | Inr (q', rest', errs) \<Rightarrow> Inr (q', rev (l # rest'), errs)))"

section \<open>Particles added on depletion\<close>


definition registerNode :: "history_entry \<Rightarrow> node_id \<Rightarrow> history_entry" where
  "registerNode e n = e\<lparr>owningBeliefNode := n\<rparr>"



section \<open>The rollout coordinator\<close>

datatype rollout_mode = ROLLOUT_RANDHEURISTIC | ROLLOUT_POL

text \<open>\<^verbatim>\<open>Model::StepResult\<close>, without the transition parameters, which the solver only stores.\<close>

record step_result =
  stepAction :: action
  stepObservation :: observation
  stepReward :: real
  stepNextState :: state_id
  stepIsTerminal :: bool

text \<open>
  A particle of a belief node is a pointer to a history entry; of that entry the solver
  reads the state, the entry's index, and the start depth of the owning sequence.
\<close>

record particle =
  particleStateInfo :: state_id
  particleEntryId :: int
  particleStartDepth :: int

text \<open>
  \<^verbatim>\<open>BeliefNode\<close> is not among the sources. The record holds the fields the solver
  touches (\<^verbatim>\<open>tNNComp_\<close>, \<^verbatim>\<open>nnBel_\<close>, \<^verbatim>\<open>tLastAddedParticle_\<close>, \<^verbatim>\<open>particles_\<close>)
  and, as fields, the answers of the methods it calls: \<^verbatim>\<open>getNActChildren()\<close>,
  \<^verbatim>\<open>getBestAction()\<close>, \<^verbatim>\<open>getNextActionToTry()\<close> and \<^verbatim>\<open>getChild(action, obs)\<close>.
  \<^verbatim>\<open>getNParticles()\<close> is the length of \<open>particles\<close>.
\<close>

record belief_node =
  tNNComp :: real
  nnBel :: "node_id option"
  tLastAddedParticle :: real
  particles :: "particle list"
  nActChildren :: nat
  bestAction :: "action option"
  nextActionToTry :: "action option"
  getChild :: "action \<Rightarrow> observation \<Rightarrow> node_id option"

text \<open>
  What the solver calls but does not define, as parameters: the virtual methods of the
  \<^verbatim>\<open>Model\<close>, \<^verbatim>\<open>BeliefNode::distL1Independent\<close> and \<^verbatim>\<open>BeliefNode::startTime\<close>, the
  two distributions of the standard library, and the processor clock. \<open>'g\<close> is the
  state of the one \<^verbatim>\<open>RandomGenerator\<close> that the Model and the solver share: whatever
  draws from it takes it and returns it. \<open>clock k\<close> is what the \<open>k\<close>-th call of
  \<^verbatim>\<open>std::clock()\<close> returns.
\<close>

record 'g environment =
  generateStep :: "state_id \<Rightarrow> action \<Rightarrow> 'g \<Rightarrow> step_result \<times> 'g"
  getHeuristicValue :: "state_id \<Rightarrow> 'g \<Rightarrow> real \<times> 'g"
  getDiscountFactor :: real
  getMaxVal :: real
  getHeuristicExploreCoefficient :: real
  getMaxNnComparisons :: int
  getMaxNnDistance :: real
  distL1Independent :: "node_id \<Rightarrow> node_id \<Rightarrow> real"
  startTime :: int
  bernoulli_distribution :: "real \<Rightarrow> 'g \<Rightarrow> bool \<times> 'g"
  uniform_int_distribution :: "int \<Rightarrow> int \<Rightarrow> 'g \<Rightarrow> int \<times> 'g"
  clock :: "nat \<Rightarrow> int"

text \<open>\<^verbatim>\<open>CLOCKS_PER_SEC\<close>, which POSIX fixes at one million.\<close>

definition CLOCKS_PER_SEC :: int where
  "CLOCKS_PER_SEC = 1000000"

text \<open>
  The fields of \<^verbatim>\<open>Solver\<close> that the rollout coordinator and \<^verbatim>\<open>improveSol\<close> use: the
  generator, the number of clock readings taken so far, the belief tree (\<^verbatim>\<open>allNodes_\<close>
  in insertion order, and the nodes), the pool's \<^verbatim>\<open>statesByIndex_\<close>, and the mixture
  of the two rollout modes. The arrays indexed by mode are functions of the mode.
\<close>

record 'g solver =
  randGen :: 'g
  clockCalls :: nat
  allNodes :: "node_id list"
  node :: "node_id \<Rightarrow> belief_node"
  statesByIndex :: "state_id list"
  lastRolloutMode :: rollout_mode
  heuristicExploreCoefficient :: real
  timeUsedPerHeuristic :: "rollout_mode \<Rightarrow> real"
  heuristicWeight :: "rollout_mode \<Rightarrow> real"
  heuristicProbability :: "rollout_mode \<Rightarrow> real"
  heuristicUseCount :: "rollout_mode \<Rightarrow> int"

text \<open>
  The constructor \<^verbatim>\<open>Solver::Solver\<close>, as far as these fields go. The tree and the pool
  start empty and are filled by code that is not modelled, so they are arguments here.
\<close>

definition Solver ::
  "'g \<Rightarrow> 'g environment \<Rightarrow> node_id list \<Rightarrow> (node_id \<Rightarrow> belief_node) \<Rightarrow> state_id list
     \<Rightarrow> 'g solver" where
  "Solver g m ns nd sts =
     \<lparr>randGen = g, clockCalls = 0, allNodes = ns, node = nd, statesByIndex = sts,
      lastRolloutMode = ROLLOUT_RANDHEURISTIC,
      heuristicExploreCoefficient = getHeuristicExploreCoefficient m,
      timeUsedPerHeuristic = (\<lambda>i. 1),
      heuristicWeight = (\<lambda>i. 1),
      heuristicProbability = (\<lambda>i. 1 / 2),
      heuristicUseCount = (\<lambda>i. 1)\<rparr>"

text \<open>One call of \<^verbatim>\<open>std::clock()\<close>.\<close>

definition readClock :: "'g environment \<Rightarrow> 'g solver \<Rightarrow> int \<times> 'g solver" where
  "readClock m s = (clock m (clockCalls s), s\<lparr>clockCalls := Suc (clockCalls s)\<rparr>)"

text \<open>
  The loop of \<^verbatim>\<open>Solver::getNNBelNode\<close> over \<^verbatim>\<open>allNodes_\<close>. \<open>minDist\<close> starts at
  infinity, which is \<open>None\<close> here: every distance is below it.
\<close>

fun nnLoop ::
  "'g environment \<Rightarrow> 'g solver \<Rightarrow> node_id \<Rightarrow> node_id list \<Rightarrow> int \<Rightarrow> real option
     \<Rightarrow> node_id option \<Rightarrow> real option \<times> node_id option" where
  "nnLoop m s b [] numTried minDist nnB = (minDist, nnB)"
| "nnLoop m s b (n # ns) numTried minDist nnB =
     (if numTried \<ge> getMaxNnComparisons m then (minDist, nnB)
      else if tNNComp (node s b) < tLastAddedParticle (node s n) then
        (let d = distL1Independent m b n in
         if (case minDist of None \<Rightarrow> True | Some md \<Rightarrow> d < md)
         then nnLoop m s b ns (numTried + 1) (Some d) (Some n)
         else nnLoop m s b ns (numTried + 1) minDist nnB)
      else nnLoop m s b ns (numTried + 1) minDist nnB)"

text \<open>
  \<^verbatim>\<open>Solver::getNNBelNode\<close>: the scan, then the time stamp and the cache of the node,
  then the answer, which is null when the smallest distance found is above
  \<^verbatim>\<open>getMaxNnDistance()\<close> (or nothing was compared).
\<close>

definition getNNBelNode ::
  "'g environment \<Rightarrow> node_id \<Rightarrow> 'g solver \<Rightarrow> node_id option \<times> 'g solver" where
  "getNNBelNode m b s =
     (case nnLoop m s b (allNodes s) 0 None (nnBel (node s b)) of (minDist, nnB) \<Rightarrow>
        (case readClock m s of (now, s1) \<Rightarrow>
          (let s2 = s1\<lparr>node := (node s1)(b := (node s1 b)
                      \<lparr>tNNComp := real_of_int (now - startTime m) * 1000
                                     / real_of_int CLOCKS_PER_SEC,
                       nnBel := nnB\<rparr>)\<rparr>
           in if (case minDist of None \<Rightarrow> True | Some md \<Rightarrow> md > getMaxNnDistance m)
              then (None, s2) else (nnB, s2))))"

text \<open>
  \<^verbatim>\<open>Solver::rolloutPolHelper\<close>, which follows the best actions of the neighbour's
  subtree. The recursion of the source ends when the tree does; the tree of the
  model is any function, so the depth is bounded by \<open>fuel\<close>.
\<close>

fun rolloutPolHelper ::
  "nat \<Rightarrow> 'g environment \<Rightarrow> (node_id \<Rightarrow> belief_node) \<Rightarrow> node_id option \<Rightarrow> state_id \<Rightarrow> real
     \<Rightarrow> 'g \<Rightarrow> fault + real \<times> 'g" where
  "rolloutPolHelper 0 m nd currNode state discountFactor g = Inl OutOfFuel"
| "rolloutPolHelper (Suc fuel) m nd currNode state discountFactor g =
     (case currNode of
        None \<Rightarrow> Inr (0, g)
      | Some c \<Rightarrow>
          if length (particles (nd c)) = 0 then Inr (0, g)
          else if nActChildren (nd c) = 0 then Inr (0, g)
          else
            (case bestAction (nd c) of
               None \<Rightarrow> Inl NullDereference
             | Some a \<Rightarrow>
                 (case generateStep m state a g of (result, g1) \<Rightarrow>
                    if \<not> stepIsTerminal result then
                      (case rolloutPolHelper fuel m nd
                              (getChild (nd c) a (stepObservation result))
                              (stepNextState result) discountFactor g1 of
                         Inl f \<Rightarrow> Inl f
                       | Inr (r, g2) \<Rightarrow> Inr (stepReward result + discountFactor * r, g2))
                    else Inr (stepReward result, g1))))"

text \<open>
  The last two statements of \<^verbatim>\<open>Solver::getRolloutAction\<close>: the mode that ran gets
  the time between \<open>startTime\<close> and \<open>endTime\<close>, in milliseconds, and one more use.
\<close>

definition countRollout :: "rollout_mode \<Rightarrow> int \<Rightarrow> int \<Rightarrow> 'g solver \<Rightarrow> 'g solver" where
  "countRollout mode startT endT s =
     s\<lparr>lastRolloutMode := mode,
       timeUsedPerHeuristic := (timeUsedPerHeuristic s)
          (mode := timeUsedPerHeuristic s mode
                   + real_of_int (endT - startT) * 1000 / real_of_int CLOCKS_PER_SEC),
       heuristicUseCount := (heuristicUseCount s)(mode := heuristicUseCount s mode + 1)\<rparr>"

text \<open>
  The branch \<^verbatim>\<open>if (lastRolloutMode_ == ROLLOUT_RANDHEURISTIC)\<close> of
  \<^verbatim>\<open>getRolloutAction\<close>, with the accounting that follows it.
\<close>

definition rolloutRandHeuristic ::
  "'g environment \<Rightarrow> step_result \<Rightarrow> real \<Rightarrow> real \<Rightarrow> 'g solver
     \<Rightarrow> fault + (step_result \<times> real) \<times> 'g solver" where
  "rolloutRandHeuristic m result startDiscount discountFactor s =
     (case readClock m s of (startT, s1) \<Rightarrow>
        (case (if \<not> stepIsTerminal result
               then (case getHeuristicValue m (stepNextState result) (randGen s1) of
                       (h, g) \<Rightarrow> (h * (startDiscount * discountFactor), s1\<lparr>randGen := g\<rparr>))
               else (0, s1)) of (qVal, s2) \<Rightarrow>
           (case readClock m s2 of (endT, s3) \<Rightarrow>
              Inr ((result, qVal), countRollout ROLLOUT_RANDHEURISTIC startT endT s3))))"

text \<open>
  \<^verbatim>\<open>Solver::getRolloutAction\<close>: one step of the Model with the next untried action,
  the draw of the mode, and the rollout of that mode. In the policy mode a missing
  neighbour sends the call to the other branch; a neighbour that is there keeps
  the call in the policy mode whatever \<^verbatim>\<open>rolloutPolHelper\<close> finds.
\<close>

definition getRolloutAction ::
  "nat \<Rightarrow> 'g environment \<Rightarrow> node_id \<Rightarrow> state_id \<Rightarrow> real \<Rightarrow> real \<Rightarrow> 'g solver
     \<Rightarrow> fault + (step_result \<times> real) \<times> 'g solver" where
  "getRolloutAction fuel m belNode state startDiscount discountFactor s =
     (case nextActionToTry (node s belNode) of
        None \<Rightarrow> Inl NullDereference
      | Some a \<Rightarrow>
         (case generateStep m state a (randGen s) of (result, g1) \<Rightarrow>
          (case bernoulli_distribution m (heuristicProbability s ROLLOUT_RANDHEURISTIC) g1 of
             (useRandHeuristic, g2) \<Rightarrow>
           (let s1 = s\<lparr>randGen := g2\<rparr> in
            if useRandHeuristic then
              rolloutRandHeuristic m result startDiscount discountFactor s1
            else
              (case readClock m s1 of (startT, s2) \<Rightarrow>
               (case getNNBelNode m belNode s2 of
                  (None, s3) \<Rightarrow>
                    rolloutRandHeuristic m result startDiscount discountFactor s3
                | (Some nn, s3) \<Rightarrow>
                    (case rolloutPolHelper fuel m (node s3)
                            (getChild (node s3 nn) a (stepObservation result))
                            (stepNextState result) discountFactor (randGen s3) of
                       Inl f \<Rightarrow> Inl f
                     | Inr (r, g3) \<Rightarrow>
                         (case readClock m (s3\<lparr>randGen := g3\<rparr>) of (endT, s4) \<Rightarrow>
                            Inr ((result, r * (startDiscount * discountFactor)),
                                 countRollout ROLLOUT_POL startT endT s4)))))))))"

text \<open>
  \<^verbatim>\<open>Solver::updateHeuristicProbabilities\<close>. Each division of the source is guarded
  here: with a zero divisor the doubles become infinite or NaN, which the real
  numbers of the model cannot follow.
\<close>

definition updateHeuristicProbabilities ::
  "'g environment \<Rightarrow> real \<Rightarrow> 'g solver \<Rightarrow> fault + 'g solver" where
  "updateHeuristicProbabilities m valImprovement s =
     (let v = (if valImprovement < 0 then 0 else valImprovement);
          mode = lastRolloutMode s;
          c = heuristicExploreCoefficient s
      in if getMaxVal m = 0 \<or> 2 * heuristicProbability s mode = 0 then Inl NonFinite
         else
           (let w = (heuristicWeight s)
                      (mode := heuristicWeight s mode
                               * exp (c * (v / getMaxVal m) / (2 * heuristicProbability s mode)));
                totWRollout = 0 + w ROLLOUT_RANDHEURISTIC + w ROLLOUT_POL
            in if totWRollout = 0 \<or> timeUsedPerHeuristic s ROLLOUT_RANDHEURISTIC = 0
                  \<or> timeUsedPerHeuristic s ROLLOUT_POL = 0 then Inl NonFinite
               else
                 (let p = (\<lambda>i. ((1 - c) * w i / totWRollout + c / 2)
                                 * real_of_int (heuristicUseCount s i)
                                 / timeUsedPerHeuristic s i);
                      totP = 0 + p ROLLOUT_RANDHEURISTIC + p ROLLOUT_POL
                  in if totP = 0 then Inl NonFinite
                     else Inr (s\<lparr>heuristicWeight := w,
                                 heuristicProbability := (\<lambda>i. p i / totP)\<rparr>))))"

text \<open>
  The mixture changes in two places only: at the end of \<^verbatim>\<open>getRolloutAction\<close> and in
  \<^verbatim>\<open>updateHeuristicProbabilities\<close>. A run of the solver is, for the mixture, a list of
  such calls with their arguments.
\<close>

datatype call = Rollout node_id state_id real real | Update real

fun run :: "nat \<Rightarrow> 'g environment \<Rightarrow> call list \<Rightarrow> 'g solver \<Rightarrow> fault + 'g solver" where
  "run fuel m [] s = Inr s"
| "run fuel m (Rollout belNode state startDiscount discountFactor # cs) s =
     (case getRolloutAction fuel m belNode state startDiscount discountFactor s of
        Inl f \<Rightarrow> Inl f
      | Inr (r, s') \<Rightarrow> run fuel m cs s')"
| "run fuel m (Update valImprovement # cs) s =
     (case updateHeuristicProbabilities m valImprovement s of
        Inl f \<Rightarrow> Inl f
      | Inr s' \<Rightarrow> run fuel m cs s')"

section \<open>Improving the policy from a belief node\<close>

text \<open>
  The first loop of \<^verbatim>\<open>Solver::improveSol\<close>, which runs \<open>maxTrials\<close> times (not at
  all when \<open>maxTrials\<close> is negative): an index drawn between 0 and
  \<open>getNParticles() - 1\<close>, the particle at that index, a complaint on \<^verbatim>\<open>cerr\<close> when its
  state is not in the pool (the index printed after it is left out), and the state
  kept as a sample.
\<close>

fun sampleParticles ::
  "'g environment \<Rightarrow> particle list \<Rightarrow> state_id list \<Rightarrow> nat \<Rightarrow> 'g
     \<Rightarrow> fault + (state_id list \<times> string list \<times> 'g)" where
  "sampleParticles m ps sts 0 g = Inr ([], [], g)"
| "sampleParticles m ps sts (Suc k) g =
     (case uniform_int_distribution m 0 (int (length ps) - 1) g of (index, g1) \<Rightarrow>
        if index < 0 \<or> int (length ps) \<le> index then Inl OutOfRange
        else
          (let entry = ps ! nat index;
               errs = (if particleStateInfo entry \<in> set sts then []
                       else [''ERROR: INVALID STATE IN PARTICLE!''])
           in case sampleParticles m ps sts k g1 of
                Inl f \<Rightarrow> Inl f
              | Inr (samples, cerr, g2) \<Rightarrow>
                  Inr (particleStateInfo entry # samples, errs @ cerr, g2)))"

text \<open>
  \<^verbatim>\<open>Solver::improveSol\<close>. The result lists the calls of \<^verbatim>\<open>singleSearch\<close> the second
  loop makes, each with its arguments (start node, state, depth, discount, maximum
  depth), in order; what a search does is not modelled.
\<close>

definition improveSol ::
  "'g environment \<Rightarrow> node_id \<Rightarrow> int \<Rightarrow> int \<Rightarrow> 'g solver
     \<Rightarrow> fault + ((node_id \<times> state_id \<times> int \<times> real \<times> int) list \<times> string list \<times> 'g solver)" where
  "improveSol m startNode maxTrials maximumDepth s =
     (let ps = particles (node s startNode) in
      if length ps = 0 then Inl (ProcessExit 10)
      else
        (let disc = getDiscountFactor m;
             entry = ps ! 0;
             depth = particleEntryId entry + particleStartDepth entry
         in case sampleParticles m ps (statesByIndex s) (nat maxTrials) (randGen s) of
              Inl f \<Rightarrow> Inl f
            | Inr (samples, cerr, g) \<Rightarrow>
                Inr (map (\<lambda>sample. (startNode, sample, depth, disc, maximumDepth)) samples,
                     cerr, s\<lparr>randGen := g\<rparr>)))"

section \<open>How the solver builds a sequence\<close>


text \<open>
  The calls by which \<^verbatim>\<open>Solver.cpp\<close> writes to the entries of a sequence once
  \<^verbatim>\<open>singleSearch\<close> or \<^verbatim>\<open>addChild\<close> has made it: a round of \<^verbatim>\<open>continueSearch\<close>,
  \<^verbatim>\<open>backup\<close>, \<^verbatim>\<open>undoBackup\<close>. (\<^verbatim>\<open>fixLinks\<close> and the change flags touch the
  owning node and the flags only.) \<open>sequenceCalls\<close> makes a list of such calls on the
  table of statistics and the entries.
\<close>

datatype sequence_call =
  ContinueSearchStep step_result node_id real bool real | Backup | UndoBackup


section \<open>Applying model changes\<close>

text \<open>
  \<^verbatim>\<open>StateInfo\<close>, as \<^verbatim>\<open>applyChanges\<close> reads it: the change flags, and the history
  entries that use the state, each a pointer, given here by the identifier of the owning
  sequence and the index of the entry in it.
\<close>

record state_info =
  stateChangeFlags :: "change_flag set"
  usedInHistoryEntries :: "(seq_id \<times> nat) list"

text \<open>
  What \<^verbatim>\<open>applyChanges\<close> works on: the sequences owned by \<^verbatim>\<open>Histories\<close>, by
  identifier; the Q statistics; the belief tree, of a type \<open>'t\<close> that only
  \<^verbatim>\<open>createOrGetChild\<close> looks into; and what has been written to \<^verbatim>\<open>cerr\<close>.
\<close>

record 't planner =
  allHistories :: "seq_id \<Rightarrow> history_sequence option"
  qTable :: q_table
  policy :: 't
  cerrLog :: "string list"

text \<open>
  Parameters: \<^verbatim>\<open>HistoryCorrector::reviseHistories\<close> and
  \<^verbatim>\<open>BeliefTree::createOrGetChild\<close> are not among the sources; \<^verbatim>\<open>continueSearch\<close>
  is, but works through the Model, the pools and the tree, and \<^verbatim>\<open>applyChanges\<close>
  only calls it. The last parameter is the order in which the standard library walks
  \<^verbatim>\<open>affectedSequences\<close>, a \<^verbatim>\<open>std::unordered_set\<close> of pointers: \<open>walkOrder xs\<close> is
  the order in which a set with the elements \<open>xs\<close> is walked. It depends on the hash
  values of the pointers, and nothing in the sources fixes it.
\<close>

record 't collaborators =
  reviseHistories :: "seq_id list \<Rightarrow> 't planner \<Rightarrow> 't planner"
  continueSearch :: "seq_id \<Rightarrow> 't planner \<Rightarrow> fault + 't planner"
  createOrGetChild :: "node_id \<Rightarrow> action \<Rightarrow> observation \<Rightarrow> 't \<Rightarrow> node_id \<times> 't"
  walkOrder :: "seq_id list \<Rightarrow> seq_id list"

text \<open>
  The calls \<^verbatim>\<open>applyChanges\<close> makes on a sequence, or on the set of them, in the order
  in which it makes them: \<^verbatim>\<open>undoBackup\<close>, \<^verbatim>\<open>deleteHistorySequence\<close>,
  \<^verbatim>\<open>reviseHistories\<close>, \<^verbatim>\<open>fixLinks\<close>, \<^verbatim>\<open>backup\<close>, \<^verbatim>\<open>continueSearch\<close>.
\<close>

datatype event =
  Undone seq_id | Deleted seq_id | Revised "seq_id list"
  | Relinked seq_id | BackedUp seq_id | Continued seq_id

text \<open>
  Modelled from the spec: \<^verbatim>\<open>HistorySequence::setChangeFlags(index, flags)\<close> is not
  among the sources; the spec has the flags of the state added to the flags kept for
  that index of the sequence.
\<close>

definition setChangeFlags :: "history_sequence \<Rightarrow> nat \<Rightarrow> change_flag set \<Rightarrow> history_sequence" where
  "setChangeFlags seq i flags =
     seq\<lparr>histSeq := (histSeq seq)
            [i := (histSeq seq ! i)\<lparr>changeFlags := changeFlags (histSeq seq ! i) \<union> flags\<rparr>]\<rparr>"

text \<open>
  Modelled from the spec: \<^verbatim>\<open>HistorySequence::resetChangeFlags()\<close> is not among the
  sources; the spec has it clear the change flags of the sequence.
\<close>

definition resetChangeFlags :: "history_sequence \<Rightarrow> history_sequence" where
  "resetChangeFlags seq = seq\<lparr>histSeq := map (\<lambda>e. e\<lparr>changeFlags := {}\<rparr>) (histSeq seq)\<rparr>"

text \<open>
  Modelled from the spec: \<^verbatim>\<open>Histories::deleteHistorySequence(id)\<close> is not among the
  sources; the spec's \<open>deleteById\<close> removes the sequence with that identifier.
\<close>

definition deleteHistorySequence :: "'t planner \<Rightarrow> seq_id \<Rightarrow> 't planner" where
  "deleteHistorySequence p sid = p\<lparr>allHistories := (allHistories p)(sid := None)\<rparr>"

text \<open>The test \<^verbatim>\<open>hasFlag(sequence->getEntry(0)->changeFlags_, ChangeFlags::DELETED)\<close>.\<close>

definition firstEntryDeleted :: "history_sequence \<Rightarrow> bool" where
  "firstEntryDeleted seq \<longleftrightarrow> DELETED \<in> changeFlags (histSeq seq ! 0)"

text \<open>
  The inner loop of the first part of \<^verbatim>\<open>applyChanges\<close>, over the entries that use
  one affected state. \<open>affected\<close> holds the elements of the set
  \<^verbatim>\<open>affectedSequences\<close>, each once; the order of the list is that of insertion and
  says nothing of the order in which the set is walked afterwards.
\<close>

fun collectEntries ::
  "change_flag set \<Rightarrow> (seq_id \<times> nat) list \<Rightarrow> 't planner \<Rightarrow> seq_id list
     \<Rightarrow> fault + ('t planner \<times> seq_id list)" where
  "collectEntries flags [] p affected = Inr (p, affected)"
| "collectEntries flags ((sid, entryId) # rest) p affected =
     (case allHistories p sid of
        None \<Rightarrow> Inl NullDereference
      | Some seq \<Rightarrow>
          if length (histSeq seq) \<le> entryId then Inl OutOfRange
          else
            (let seq1 = setChangeFlags seq entryId flags;
                 entryFlags = changeFlags (histSeq seq1 ! entryId);
                 seq2 = (if DELETED \<in> entryFlags \<and> entryId > 0
                         then setChangeFlags seq1 (entryId - 1) {TRANSITION} else seq1);
                 seq3 = (if OBSERVATION_BEFORE \<in> entryFlags \<and> entryId > 0
                         then setChangeFlags seq2 (entryId - 1) {OBSERVATION} else seq2)
             in collectEntries flags rest
                  (p\<lparr>allHistories := (allHistories p)(sid \<mapsto> seq3)\<rparr>)
                  (if sid \<in> set affected then affected else affected @ [sid])))"

text \<open>The outer loop, over the affected states.\<close>

fun collectAffected ::
  "state_info list \<Rightarrow> 't planner \<Rightarrow> seq_id list \<Rightarrow> fault + ('t planner \<times> seq_id list)" where
  "collectAffected [] p affected = Inr (p, affected)"
| "collectAffected (si # sis) p affected =
     (case collectEntries (stateChangeFlags si) (usedInHistoryEntries si) p affected of
        Inl f \<Rightarrow> Inl f
      | Inr (p', affected') \<Rightarrow> collectAffected sis p' affected')"

text \<open>
  The second loop, over the set in the order in which it is walked: each affected
  sequence is undone, and one whose first entry is flagged \<open>DELETED\<close> is erased from
  the set and deleted. The result has the sequences that stay in the set, in the order
  in which they were met (erasing from an \<^verbatim>\<open>unordered_set\<close> keeps the order of the
  others), and the calls made.
\<close>

fun undoAndPurge ::
  "seq_id list \<Rightarrow> 't planner \<Rightarrow> fault + ('t planner \<times> seq_id list \<times> event list)" where
  "undoAndPurge [] p = Inr (p, [], [])"
| "undoAndPurge (sid # rest) p =
     (case allHistories p sid of
        None \<Rightarrow> Inl NullDereference
      | Some seq \<Rightarrow>
          (case undoBackup (qTable p) (histSeq seq) of
             Inl f \<Rightarrow> Inl f
           | Inr (q', entries', errs) \<Rightarrow>
               (let seq' = seq\<lparr>histSeq := entries'\<rparr>;
                    p1 = p\<lparr>allHistories := (allHistories p)(sid \<mapsto> seq'),
                           qTable := q', cerrLog := cerrLog p @ errs\<rparr>
                in if firstEntryDeleted seq' then
                     (case undoAndPurge rest (deleteHistorySequence p1 sid) of
                        Inl f \<Rightarrow> Inl f
                      | Inr (p2, kept, evs) \<Rightarrow> Inr (p2, kept, Undone sid # Deleted sid # evs))
                   else
                     (case undoAndPurge rest p1 of
                        Inl f \<Rightarrow> Inl f
                      | Inr (p2, kept, evs) \<Rightarrow> Inr (p2, sid # kept, Undone sid # evs)))))"

text \<open>
  The loop of \<^verbatim>\<open>Solver::fixLinks\<close>: \<open>n\<close> steps from index \<open>i\<close>, each registering
  the entry after \<open>i\<close> to the child reached from the node of entry \<open>i\<close>.
\<close>

fun fixLinksLoop ::
  "'t collaborators \<Rightarrow> nat \<Rightarrow> nat \<Rightarrow> history_entry list \<Rightarrow> 't
     \<Rightarrow> fault + (history_entry list \<times> 't)" where
  "fixLinksLoop C 0 i entries t = Inr (entries, t)"
| "fixLinksLoop C (Suc n) i entries t =
     (let entry = entries ! i in
      case action entry of
        None \<Rightarrow> Inl NullDereference
      | Some a \<Rightarrow>
          (case observation entry of
             None \<Rightarrow> Inl NullDereference
           | Some ob \<Rightarrow>
               (case createOrGetChild C (owningBeliefNode entry) a ob t of (nextNode, t') \<Rightarrow>
                  fixLinksLoop C n (Suc i)
                    (entries[Suc i := registerNode (entries ! Suc i) nextNode]) t')))"

text \<open>
  \<^verbatim>\<open>Solver::fixLinks\<close>. The iterator starts at \<^verbatim>\<open>invalidLinksStartId_\<close> and stops when
  the entry after it is the end; started at or after the end it never meets that test.
\<close>

definition fixLinks ::
  "'t collaborators \<Rightarrow> history_sequence \<Rightarrow> 't \<Rightarrow> fault + (history_sequence \<times> 't)" where
  "fixLinks C seq t =
     (if invalidLinksStartId seq \<noteq> - 1 then
        (if 0 \<le> invalidLinksStartId seq \<and> invalidLinksStartId seq < int (length (histSeq seq))
         then
           (case fixLinksLoop C (length (histSeq seq) - 1 - nat (invalidLinksStartId seq))
                   (nat (invalidLinksStartId seq)) (histSeq seq) t of
              Inl f \<Rightarrow> Inl f
            | Inr (entries', t') \<Rightarrow>
                Inr (seq\<lparr>histSeq := entries', invalidLinksStartId := - 1\<rparr>, t'))
         else Inl OutOfRange)
      else Inr (seq, t))"

text \<open>
  The last loop: each sequence left in the set gets its links fixed and its flags
  cleared, and is backed up when it is terminal and searched further when it is not.
\<close>

fun reintegrate ::
  "'t collaborators \<Rightarrow> seq_id list \<Rightarrow> 't planner \<Rightarrow> fault + ('t planner \<times> event list)" where
  "reintegrate C [] p = Inr (p, [])"
| "reintegrate C (sid # rest) p =
     (case allHistories p sid of
        None \<Rightarrow> Inl NullDereference
      | Some seq \<Rightarrow>
          (case fixLinks C seq (policy p) of
             Inl f \<Rightarrow> Inl f
           | Inr (seq1, t1) \<Rightarrow>
               (let seq2 = resetChangeFlags seq1;
                    p1 = p\<lparr>allHistories := (allHistories p)(sid \<mapsto> seq2), policy := t1\<rparr>
                in if isTerminal seq2 then
                     (case backup (qTable p1) (histSeq seq2) of
                        Inl f \<Rightarrow> Inl f
                      | Inr (q', entries') \<Rightarrow>
                          (case reintegrate C rest
                                  (p1\<lparr>allHistories :=
                                         (allHistories p1)(sid \<mapsto> seq2\<lparr>histSeq := entries'\<rparr>),
                                       qTable := q'\<rparr>) of
                             Inl f \<Rightarrow> Inl f
                           | Inr (p2, evs) \<Rightarrow> Inr (p2, Relinked sid # BackedUp sid # evs)))
                   else
                     (case continueSearch C sid p1 of
                        Inl f \<Rightarrow> Inl f
                      | Inr p1' \<Rightarrow>
                          (case reintegrate C rest p1' of
                             Inl f \<Rightarrow> Inl f
                           | Inr (p2, evs) \<Rightarrow>
                               Inr (p2, Relinked sid # Continued sid # evs))))))"

text \<open>
  \<^verbatim>\<open>Solver::applyChanges\<close>, from the affected states of the pool, given in the order
  in which the pool and the states hand them out. The set that the first part has
  filled is walked by the second loop; what is left of it goes to the history corrector
  and is walked by the last loop. The result has the calls made on the sequences, in
  order. What goes to \<^verbatim>\<open>cout\<close> is left out.
\<close>

definition applyChanges ::
  "'t collaborators \<Rightarrow> state_info list \<Rightarrow> 't planner \<Rightarrow> fault + ('t planner \<times> event list)" where
  "applyChanges C affectedStates p =
     (case collectAffected affectedStates p [] of
        Inl f \<Rightarrow> Inl f
      | Inr (p1, inserted) \<Rightarrow>
          (case undoAndPurge (walkOrder C inserted) p1 of
             Inl f \<Rightarrow> Inl f
           | Inr (p2, kept, evs1) \<Rightarrow>
               (case reintegrate C kept (reviseHistories C kept p2) of
                  Inl f \<Rightarrow> Inl f
                | Inr (p4, evs2) \<Rightarrow> Inr (p4, evs1 @ [Revised kept] @ evs2))))"

section \<open>Sample data\<close>

text \<open>
  Small concrete values on which the theorems below are exercised: an empty table of
  statistics, a history entry given by its discount, reward, action, total and flag,
  a tree of belief nodes in which node 1 has child 2 and no node has particles or
  children with actions, and an environment whose step, heuristic and distance are
  constant and whose generator is the list of the numbers it will draw.
\<close>

definition noStatistics :: q_table where
  "noStatistics = (\<lambda>k. \<lparr>totalQValue = 0, visitCount = 0\<rparr>)"

definition sampleEntry :: "real \<Rightarrow> real \<Rightarrow> action option \<Rightarrow> real \<Rightarrow> bool \<Rightarrow> history_entry" where
  "sampleEntry d r a t b =
     \<lparr>stateInfo = 0, discount = d, reward = r, action = a, observation = a,
      owningBeliefNode = 0, totalDiscountedReward = t, hasBeenBackedUp = b,
      changeFlags = {}\<rparr>"

definition sampleNode :: "real \<Rightarrow> (action \<Rightarrow> observation \<Rightarrow> node_id option) \<Rightarrow> belief_node" where
  "sampleNode t ch =
     \<lparr>tNNComp = 0, nnBel = None, tLastAddedParticle = t, particles = [], nActChildren = 0,
      bestAction = None, nextActionToTry = Some 0, getChild = ch\<rparr>"

definition sampleNodes :: "node_id \<Rightarrow> belief_node" where
  "sampleNodes n = (if n = 1 then sampleNode 1 (\<lambda>a ob. Some 2) else sampleNode 0 (\<lambda>a ob. None))"

text \<open>
  A second tree, in which the child of node 1 is node 3, which has a particle, a child
  with an action and a best action, and whose own child is node 2.
\<close>

definition deepNodes :: "node_id \<Rightarrow> belief_node" where
  "deepNodes n =
     (if n = 1 then sampleNode 1 (\<lambda>a ob. Some 3)
      else if n = 3 then
        (sampleNode 0 (\<lambda>a ob. Some 2))
          \<lparr>particles := [\<lparr>particleStateInfo = 0, particleEntryId = 0, particleStartDepth = 0\<rparr>],
           nActChildren := 1, bestAction := Some 0\<rparr>
      else sampleNode 0 (\<lambda>a ob. None))"

definition sampleEnvironment :: "real \<Rightarrow> (nat \<Rightarrow> int) \<Rightarrow> (real list) environment" where
  "sampleEnvironment maxVal clk =
     \<lparr>generateStep = (\<lambda>st a g. (\<lparr>stepAction = a, stepObservation = 0, stepReward = 1,
                                   stepNextState = st, stepIsTerminal = False\<rparr>, g)),
      getHeuristicValue = (\<lambda>st g. (5, g)),
      getDiscountFactor = 1,
      getMaxVal = maxVal,
      getHeuristicExploreCoefficient = 1 / 2,
      getMaxNnComparisons = 10,
      getMaxNnDistance = 1,
      distL1Independent = (\<lambda>b n. 0),
      startTime = 0,
      bernoulli_distribution = (\<lambda>p g. case g of [] \<Rightarrow> (True, []) | u # us \<Rightarrow> (u < p, us)),
      uniform_int_distribution = (\<lambda>lo hi g. (lo, g)),
      clock = clk\<rparr>"

text \<open>
  A planner with two sequences: sequence 0, of one entry, and the terminal sequence 1,
  of two entries, the first of which has been backed up into the statistics. The
  collaborators leave everything as it is, and the set is walked against the order of
  insertion.
\<close>

definition samplePlanner :: "unit planner" where
  "samplePlanner =
     \<lparr>allHistories = (\<lambda>sid.
          if sid = 0 then
            Some \<lparr>histSeq = [sampleEntry 1 0 None 0 False], isTerminal = False,
                  invalidLinksStartId = - 1\<rparr>
          else if sid = 1 then
            Some \<lparr>histSeq = [sampleEntry 1 2 (Some 0) 5 True, sampleEntry (1 / 2) 0 None 3 False],
                  isTerminal = True, invalidLinksStartId = - 1\<rparr>
          else None),
      qTable = updateQValue noStatistics 0 0 5 1, policy = (), cerrLog = []\<rparr>"

definition sampleCollaborators :: "unit collaborators" where
  "sampleCollaborators =
     \<lparr>reviseHistories = (\<lambda>kept p. p),
      continueSearch = (\<lambda>sid p. Inr p),
      createOrGetChild = (\<lambda>n a ob t. (n, t)),
      walkOrder = rev\<rparr>"

section \<open>Notions used in the statements\<close>

text \<open>
  Of the outcome of a rollout: the Q estimate, the mode it is counted under, and the
  use counts of the two modes.
\<close>

definition rolloutSummary ::
  "fault + (step_result \<times> real) \<times> 'g solver \<Rightarrow> (real \<times> rollout_mode \<times> int \<times> int) option" where
  "rolloutSummary r = (case r of
       Inl f \<Rightarrow> None
     | Inr ((result, qVal), s') \<Rightarrow>
         Some (qVal, lastRolloutMode s', heuristicUseCount s' ROLLOUT_RANDHEURISTIC,
               heuristicUseCount s' ROLLOUT_POL))"

text \<open>
  The second rollout of a run that draws \<open>1/4\<close> and then \<open>1/2\<close> from the generator,
  with the update of the mixture between the two, under a given clock.
\<close>

definition secondRollout :: "(nat \<Rightarrow> int) \<Rightarrow> (real \<times> rollout_mode \<times> int \<times> int) option" where
  "secondRollout clk =
     (case run 1 (sampleEnvironment 10 clk) [Rollout 0 0 1 1, Update 0]
             (Solver [1 / 4, 1 / 2] (sampleEnvironment 10 clk) [0, 1] sampleNodes []) of
        Inl f \<Rightarrow> None
      | Inr s \<Rightarrow> rolloutSummary (getRolloutAction 1 (sampleEnvironment 10 clk) 0 0 1 1 s))"

text \<open>
  A solver state without what it has taken from the clock, and the outcome of a rollout
  with its state so reduced.
\<close>

definition eraseTimes :: "'g solver \<Rightarrow> 'g solver" where
  "eraseTimes s = s\<lparr>timeUsedPerHeuristic := (\<lambda>i. 0),
                     node := (\<lambda>n. (node s n)\<lparr>tNNComp := 0\<rparr>)\<rparr>"

definition observable ::
  "fault + (step_result \<times> real) \<times> 'g solver \<Rightarrow> fault + (step_result \<times> real) \<times> 'g solver" where
  "observable r = (case r of Inl f \<Rightarrow> Inl f | Inr (out, s') \<Rightarrow> Inr (out, eraseTimes s'))"

text \<open>
  The invariant of the mixture: weights and probabilities above zero, times and use
  counts at least one.
\<close>

definition mixtureOK :: "'g solver \<Rightarrow> bool" where
  "mixtureOK s \<longleftrightarrow>
     (\<forall>i. 0 < heuristicWeight s i \<and> 0 < heuristicProbability s i
          \<and> 1 \<le> timeUsedPerHeuristic s i \<and> 1 \<le> heuristicUseCount s i)"

definition sameMixture :: "'g solver \<Rightarrow> 'g solver \<Rightarrow> bool" where
  "sameMixture s s' \<longleftrightarrow>
     heuristicWeight s' = heuristicWeight s \<and> heuristicProbability s' = heuristicProbability s
     \<and> timeUsedPerHeuristic s' = timeUsedPerHeuristic s
     \<and> heuristicUseCount s' = heuristicUseCount s
     \<and> heuristicExploreCoefficient s' = heuristicExploreCoefficient s"


section \<open>Vector equality: what is compared\<close>

lemma equals_prefix:
  "length v1 \<le> length v2 \<Longrightarrow> equals v1 v2 = Inr (v1 = take (length v1) v2)"
  by (induction v1 v2 rule: equals.induct) auto

text \<open>
  Claim C10. \<^verbatim>\<open>Vector::equals\<close> compares the components up to the length of the
  receiver's vector only. When the other vector is at least as long, the answer is
  whether the receiver equals the other vector cut to the receiver's length: for two
  vectors of the same length that is whether all components are pairwise equal, and a
  vector that extends the receiver is found equal to it, the trailing components being
  ignored. The other way round the loop leaves the shorter vector, so \<open>equals\<close> is
  not symmetric on vectors of different lengths.
\<close>

theorem equals_receiver_length:
  "(length v1 \<le> length v2 \<longrightarrow> equals v1 v2 = Inr (v1 = take (length v1) v2))
   \<and> (length v1 = length v2 \<longrightarrow> equals v1 v2 = Inr (v1 = v2))
   \<and> equals v1 (v1 @ extra) = Inr True
   \<and> equals [1] [1, 2] = Inr True \<and> equals [1, 2] [1] = Inl OutOfRange"
  using equals_prefix [of v1 v2] equals_prefix [of v1 "v1 @ extra"] by simp

theorem equals_receiver_length_witness:
  "equals [3, 4] [3, 4, 5] = Inr True \<and> equals [3, 4] [3, 5] = Inr False
   \<and> equals [3, 4] [3, 4] = Inr True"
  using equals_receiver_length [of "[3, 4]" "[3, 4, 5]" "[]"]
        equals_receiver_length [of "[3, 4]" "[3, 5]" "[]"]
        equals_receiver_length [of "[3, 4]" "[3, 4]" "[]"]
  by simp

section \<open>Backup: the totals it stores\<close>

lemma sum_list_drop_nth:
  "sum_list (map f (drop i xs)) = (\<Sum>j = i..<length xs. f (xs ! j))"
proof (cases "i \<le> length xs")
  case True
  have "sum_list (map f (drop i xs)) = (\<Sum>k = 0..<length xs - i. f (drop i xs ! k))"
    by (simp add: sum_list_sum_nth)
  also have "\<dots> = (\<Sum>k = 0..<length xs - i. f (xs ! (k + i)))"
    by (rule sum.cong) (auto simp: add.commute)
  also have "\<dots> = (\<Sum>j = 0 + i..<(length xs - i) + i. f (xs ! j))"
    by (rule sum.shift_bounds_nat_ivl [symmetric])
  finally show ?thesis using True by simp
next
  case False
  then show ?thesis by simp
qed

lemma backupLoop_totals:
  "backupLoop t q rs = Inr (q', rs') \<Longrightarrow>
   length rs' = length rs \<and>
   (\<forall>k<length rs. totalDiscountedReward (rs' ! k)
        = t + sum_list (map (\<lambda>e. discount e * reward e) (take (Suc k) rs))
      \<and> discount (rs' ! k) = discount (rs ! k) \<and> reward (rs' ! k) = reward (rs ! k))"
proof (induction rs arbitrary: t q q' rs')
  case Nil
  then show ?case by simp
next
  case (Cons e es)
  then show ?case
    by (auto simp: Let_def nth_Cons split: option.splits if_splits sum.splits nat.splits)
qed

lemma backupLoop_returns:
  "\<forall>e\<in>set es. action e \<noteq> None \<Longrightarrow> \<exists>q' es'. backupLoop t q es = Inr (q', es')"
proof (induction es arbitrary: t q)
  case Nil
  show ?case by simp
next
  case (Cons e es)
  then obtain a where a: "action e = Some a" by auto
  from Cons.prems have r: "\<forall>e\<in>set es. action e \<noteq> None" by simp
  show ?case
  proof (cases "hasBeenBackedUp e")
    case True
    from Cons.IH [OF r, of "discount e * reward e + t"
        "updateQValue q (owningBeliefNode e) a (discount e * reward e + t - totalDiscountedReward e) 0"]
    show ?thesis using a True by (auto simp: Let_def)
  next
    case False
    from Cons.IH [OF r, of "discount e * reward e + t"
        "updateQValue q (owningBeliefNode e) a (discount e * reward e + t) 1"]
    show ?thesis using a False by (auto simp: Let_def)
  qed
qed

lemma backup_returns:
  assumes "entries \<noteq> []" and "\<forall>e\<in>set (butlast entries). action e \<noteq> None"
  shows "\<exists>q' entries'. backup q entries = Inr (q', entries')"
proof -
  define l where "l = last entries"
  define l' where "l' = (if action l = None then l
                         else l\<lparr>totalDiscountedReward := discount l * reward l\<rparr>)"
  from assms(1) have rv: "rev entries = l # rev (butlast entries)"
    unfolding l_def by (metis append_butlast_last_id rev.simps(2) rev_rev_ident rev_swap)
  from assms(2) have "\<forall>e\<in>set (rev (butlast entries)). action e \<noteq> None" by simp
  from backupLoop_returns [OF this, of "totalDiscountedReward l'" q]
  obtain q' es' where "backupLoop (totalDiscountedReward l') q (rev (butlast entries)) = Inr (q', es')"
    by blast
  then show ?thesis
    unfolding backup_def rv by (simp add: Let_def l'_def)
qed

text \<open>
  Claim C1. When \<^verbatim>\<open>backup\<close> completes on a sequence, it has changed no discount and
  no reward, and every entry \<open>i\<close> holds as its total the sum of
  \<open>discount[j] * reward[j]\<close> over the entries \<open>j \<ge> i\<close> before the last, plus the
  contribution of the last entry: the total set there beforehand (the rollout
  estimate) when no action was taken from it, and its \<open>discount * reward\<close> otherwise.
\<close>

theorem backup_totals:
  assumes "backup q entries = Inr (q', entries')" and "i < length entries"
  shows "length entries' = length entries \<and>
         discount (entries' ! i) = discount (entries ! i) \<and>
         reward (entries' ! i) = reward (entries ! i) \<and>
         totalDiscountedReward (entries' ! i) =
           (\<Sum>j = i..<length entries - 1. discount (entries ! j) * reward (entries ! j))
           + (if action (last entries) = None then totalDiscountedReward (last entries)
              else discount (last entries) * reward (last entries))"
proof -
  let ?f = "\<lambda>e. discount e * reward e"
  let ?n = "length entries"
  from assms(2) have ne: "entries \<noteq> []" by auto
  define l where "l = last entries"
  define rest where "rest = rev (butlast entries)"
  have rv: "rev entries = l # rest"
    using ne by (metis l_def rest_def append_butlast_last_id rev.simps(2) rev_rev_ident rev_swap rev_append rev_singleton_conv append_Cons append_Nil)
  define l' where "l' = (if action l = None then l else l\<lparr>totalDiscountedReward := discount l * reward l\<rparr>)"
  define t where "t = totalDiscountedReward l'"
  from assms(1) rv obtain rest' where
    loop: "backupLoop t q rest = Inr (q', rest')" and res: "entries' = rev (l' # rest')"
    by (auto simp: backup_def Let_def l'_def t_def split: sum.splits)
  note tot = backupLoop_totals [OF loop]
  have len: "length rest' = length rest" and lrest: "length rest = ?n - 1"
    using tot by (simp_all add: rest_def)
  have tval: "t = (if action (last entries) = None then totalDiscountedReward (last entries)
              else discount (last entries) * reward (last entries))"
    by (simp add: t_def l'_def l_def)
  have dl: "discount l' = discount l" "reward l' = reward l" by (simp_all add: l'_def)
  show ?thesis
  proof (cases "i = ?n - 1")
    case True
    then have "entries' ! i = l'" using res len lrest by (simp add: nth_append)
    moreover have "entries ! i = l" using True ne by (simp add: l_def last_conv_nth)
    ultimately show ?thesis using True res len lrest ne tval t_def dl by simp
  next
    case False
    with assms(2) have ilt: "i < ?n - 1" by simp
    define k where "k = ?n - 2 - i"
    have klt: "k < length rest" using ilt lrest by (simp add: k_def)
    have idx: "entries' ! i = rest' ! k"
      using ilt len lrest res by (simp add: nth_append rev_nth k_def)
    have ki: "length entries - Suc (Suc k) = i"
      using ilt by (simp add: k_def)
    have idx0: "entries ! i = rest ! k"
      using klt ilt by (simp add: rest_def rev_nth ki nth_butlast)
    have tk: "take (Suc k) rest = rev (drop i (butlast entries))"
      using ilt by (simp add: rest_def take_rev ki)
    have "sum_list (map ?f (take (Suc k) rest)) = sum_list (map ?f (drop i (butlast entries)))"
      by (simp add: tk rev_map [symmetric] del: rev_map)
    also have "\<dots> = (\<Sum>j = i..<length (butlast entries). ?f (butlast entries ! j))"
      by (rule sum_list_drop_nth)
    also have "\<dots> = (\<Sum>j = i..<?n - 1. ?f (entries ! j))"
      by (rule sum.cong) (auto simp: nth_butlast)
    finally have s: "sum_list (map ?f (take (Suc k) rest)) = (\<Sum>j = i..<?n - 1. ?f (entries ! j))" .
    from tot klt have "totalDiscountedReward (rest' ! k) = t + sum_list (map ?f (take (Suc k) rest))"
      and "discount (rest' ! k) = discount (rest ! k)" and "reward (rest' ! k) = reward (rest ! k)"
      by auto
    then show ?thesis using idx idx0 s tval res len lrest ne by simp
  qed
qed

theorem backup_totals_witness:
  "\<exists>q' es'. backup noStatistics
       [sampleEntry 1 2 (Some 0) 0 False, sampleEntry (1 / 2) 4 (Some 1) 0 False,
        sampleEntry (1 / 4) 0 None 3 False] = Inr (q', es')
     \<and> totalDiscountedReward (es' ! 0) = 1 * 2 + (1 / 2) * 4 + 3
     \<and> totalDiscountedReward (es' ! 2) = 3"
proof -
  let ?es = "[sampleEntry 1 2 (Some 0) 0 False, sampleEntry (1 / 2) 4 (Some 1) 0 False,
        sampleEntry (1 / 4) 0 None 3 False]"
  obtain q' es' where b: "backup noStatistics ?es = Inr (q', es')"
    by (simp add: backup_def sampleEntry_def)
  have l: "(0::nat) < length ?es" "(2::nat) < length ?es" by simp_all
  from backup_totals [OF b l(1)] backup_totals [OF b l(2)] b show ?thesis
    by (simp add: sampleEntry_def eval_nat_numeral)
qed

section \<open>Backup of a sequence of one entry\<close>












section \<open>Backup followed by its undoing\<close>

lemma updateQValue_commute:
  "updateQValue (updateQValue q n a x i) m b y j = updateQValue (updateQValue q m b y j) n a x i"
  by (rule ext) (simp add: updateQValue_def)

lemma updateQValue_merge:
  "updateQValue (updateQValue q n a x i) n a y j = updateQValue q n a (x + y) (i + j)"
  by (rule ext) (simp add: updateQValue_def)

lemma updateQValue_zero: "updateQValue q n a 0 0 = q"
  by (rule ext) (simp add: updateQValue_def)

lemma undoBackupLoop_updateQValue:
  "undoBackupLoop (updateQValue q n a x i) es =
     (case undoBackupLoop q es of
        Inl f \<Rightarrow> Inl f
      | Inr (q', es', errs) \<Rightarrow> Inr (updateQValue q' n a x i, es', errs))"
proof (induction es arbitrary: q)
  case Nil
  show ?case by simp
next
  case (Cons e es)
  show ?case
  proof (cases "hasBeenBackedUp e")
    case False
    then show ?thesis by (simp add: Cons.IH split: sum.splits)
  next
    case True
    show ?thesis
    proof (cases "action e")
      case None
      with True show ?thesis by simp
    next
      case (Some b)
      have "undoBackupLoop (updateQValue (updateQValue q n a x i) (owningBeliefNode e) b
                (- totalDiscountedReward e) (- 1)) es =
            undoBackupLoop (updateQValue (updateQValue q (owningBeliefNode e) b
                (- totalDiscountedReward e) (- 1)) n a x i) es"
        by (simp only: updateQValue_commute)
      with True Some show ?thesis by (simp add: Cons.IH split: sum.splits)
    qed
  qed
qed

lemma undoBackupLoop_fresh:
  "\<forall>e\<in>set es. \<not> hasBeenBackedUp e \<Longrightarrow>
   undoBackupLoop q es =
     Inr (q, es, replicate (length es) ''ERROR: Backup not yet done; cannot undo!'')"
  by (induction es) simp_all

lemma backupLoop_then_undo:
  "backupLoop t q rs = Inr (q1, rs1) \<Longrightarrow>
   \<exists>q2 rs2. undoBackupLoop q1 rs1 = Inr (q2, rs2, [])
     \<and> length rs2 = length rs
     \<and> (\<forall>e\<in>set rs2. \<not> hasBeenBackedUp e)
     \<and> (\<exists>rs0 errs0. undoBackupLoop q rs = Inr (q2, rs0, errs0))"
proof (induction rs arbitrary: t q q1 rs1)
  case Nil
  then show ?case by simp
next
  case (Cons e es)
  define new where "new = discount e * reward e + t"
  from Cons.prems obtain a where a: "action e = Some a"
    by (auto simp: Let_def split: option.splits)
  let ?n = "owningBeliefNode e"
  show ?case
  proof (cases "hasBeenBackedUp e")
    case True
    let ?q' = "updateQValue q ?n a (new - totalDiscountedReward e) 0"
    from Cons.prems a True obtain es1 where
      loop: "backupLoop new ?q' es = Inr (q1, es1)" and
      rs1: "rs1 = e\<lparr>totalDiscountedReward := new\<rparr> # es1"
      by (auto simp: Let_def new_def split: sum.splits)
    from Cons.IH [OF loop] obtain q2 rs2 rs0 errs0 where
      u1: "undoBackupLoop q1 es1 = Inr (q2, rs2, [])" and len: "length rs2 = length es" and
      fl: "\<forall>e\<in>set rs2. \<not> hasBeenBackedUp e" and
      u0: "undoBackupLoop ?q' es = Inr (q2, rs0, errs0)"
      by blast
    have "updateQValue ?q' ?n a (- new) (- 1) = updateQValue q ?n a (- totalDiscountedReward e) (- 1)"
      by (simp add: updateQValue_merge)
    then have "undoBackupLoop (updateQValue q ?n a (- totalDiscountedReward e) (- 1)) es
        = Inr (updateQValue q2 ?n a (- new) (- 1), rs0, errs0)"
      using undoBackupLoop_updateQValue [of ?q' ?n a "- new" "- 1" es] u0 by simp
    moreover have "undoBackupLoop (updateQValue q1 ?n a (- new) (- 1)) es1
        = Inr (updateQValue q2 ?n a (- new) (- 1), rs2, [])"
      using undoBackupLoop_updateQValue [of q1 ?n a "- new" "- 1" es1] u1 by simp
    ultimately show ?thesis using rs1 a True len fl by simp
  next
    case False
    let ?q' = "updateQValue q ?n a new 1"
    from Cons.prems a False obtain es1 where
      loop: "backupLoop new ?q' es = Inr (q1, es1)" and
      rs1: "rs1 = e\<lparr>totalDiscountedReward := new, hasBeenBackedUp := True\<rparr> # es1"
      by (auto simp: Let_def new_def split: sum.splits)
    from Cons.IH [OF loop] obtain q2 rs2 rs0 errs0 where
      u1: "undoBackupLoop q1 es1 = Inr (q2, rs2, [])" and len: "length rs2 = length es" and
      fl: "\<forall>e\<in>set rs2. \<not> hasBeenBackedUp e" and
      u0: "undoBackupLoop ?q' es = Inr (q2, rs0, errs0)"
      by blast
    from u0 obtain q0 where
      q0: "undoBackupLoop q es = Inr (q0, rs0, errs0)" and q2: "q2 = updateQValue q0 ?n a new 1"
      using undoBackupLoop_updateQValue [of q ?n a new 1 es]
      by (auto split: sum.splits)
    have "updateQValue q2 ?n a (- new) (- 1) = q0"
      by (simp add: q2 updateQValue_merge updateQValue_zero)
    moreover have "undoBackupLoop (updateQValue q1 ?n a (- new) (- 1)) es1
        = Inr (updateQValue q2 ?n a (- new) (- 1), rs2, [])"
      using undoBackupLoop_updateQValue [of q1 ?n a "- new" "- 1" es1] u1 by simp
    ultimately show ?thesis using rs1 a False len fl q0 by simp
  qed
qed

text \<open>
  Claim C2, as the code has it. When \<^verbatim>\<open>backup\<close> has completed on a sequence,
  \<^verbatim>\<open>undoBackup\<close> completes on the result with no complaint, clears the
  \<open>hasBeenBackedUp\<close> flag of every entry before the last, and leaves the Q sums and
  visit counts as \<^verbatim>\<open>undoBackup\<close> alone would have left them on the sequence as it
  was before the backup. When no entry before the last had been backed up already,
  these are the values from before the backup.
\<close>

theorem backup_then_undoBackup:
  assumes "backup q entries = Inr (q1, entries1)"
  shows "\<exists>q2 entries2. undoBackup q1 entries1 = Inr (q2, entries2, [])
     \<and> length entries2 = length entries
     \<and> (\<forall>i<length entries - 1. \<not> hasBeenBackedUp (entries2 ! i))
     \<and> (\<exists>hs0 errs0. undoBackup q entries = Inr (q2, hs0, errs0))
     \<and> ((\<forall>i<length entries - 1. \<not> hasBeenBackedUp (entries ! i)) \<longrightarrow> q2 = q)"
proof -
  from assms obtain l rest where rv: "rev entries = l # rest"
    by (cases "rev entries") (auto simp: backup_def)
  define l' where "l' = (if action l = None then l else l\<lparr>totalDiscountedReward := discount l * reward l\<rparr>)"
  from assms rv obtain rest1 where
    loop: "backupLoop (totalDiscountedReward l') q rest = Inr (q1, rest1)" and
    h1: "entries1 = rev (l' # rest1)"
    by (auto simp: backup_def Let_def l'_def split: sum.splits)
  from backupLoop_then_undo [OF loop] obtain q2 rs2 rs0 errs0 where
    u1: "undoBackupLoop q1 rest1 = Inr (q2, rs2, [])" and len: "length rs2 = length rest" and
    fl: "\<forall>e\<in>set rs2. \<not> hasBeenBackedUp e" and
    u0: "undoBackupLoop q rest = Inr (q2, rs0, errs0)"
    by blast
  have hs: "entries = rev rest @ [l]" using rv by (metis rev.simps(2) rev_rev_ident)
  have lh: "length entries - 1 = length rest" using hs by simp
  have A: "undoBackup q1 entries1 = Inr (q2, rev (l' # rs2), [])"
    using u1 h1 by (simp add: undoBackup_def)
  have B: "length (rev (l' # rs2)) = length entries" using len hs by simp
  have C: "\<forall>i<length entries - 1. \<not> hasBeenBackedUp (rev (l' # rs2) ! i)"
  proof (intro allI impI)
    fix i assume i: "i < length entries - 1"
    then have "rev rs2 ! i \<in> set (rev rs2)" using len lh by (intro nth_mem) simp
    then have "\<not> hasBeenBackedUp (rev rs2 ! i)" using fl by simp
    then show "\<not> hasBeenBackedUp (rev (l' # rs2) ! i)"
      using i len lh by (simp add: nth_append)
  qed
  have D: "undoBackup q entries = Inr (q2, rev (l # rs0), errs0)"
    using u0 rv by (simp add: undoBackup_def)
  have E: "(\<forall>i<length entries - 1. \<not> hasBeenBackedUp (entries ! i)) \<longrightarrow> q2 = q"
  proof
    assume fr: "\<forall>i<length entries - 1. \<not> hasBeenBackedUp (entries ! i)"
    have "\<forall>e\<in>set rest. \<not> hasBeenBackedUp e"
    proof
      fix e assume "e \<in> set rest"
      then have "e \<in> set (rev rest)" by simp
      then obtain i where "i < length rest" "rev rest ! i = e"
        by (metis in_set_conv_nth length_rev)
      with fr lh hs show "\<not> hasBeenBackedUp e" by (auto simp: nth_append)
    qed
    from undoBackupLoop_fresh [OF this, of q] u0 show "q2 = q" by simp
  qed
  from A B C D E show ?thesis by blast
qed

theorem backup_then_undoBackup_witness:
  "\<exists>q1 hs1 hs2.
     backup noStatistics [sampleEntry 1 2 (Some 0) 0 False, sampleEntry (1/2) 0 None 3 False]
       = Inr (q1, hs1)
     \<and> undoBackup q1 hs1 = Inr (noStatistics, hs2, [])
     \<and> \<not> hasBeenBackedUp (hs2 ! 0)"
proof -
  let ?hs = "[sampleEntry 1 2 (Some 0) 0 False, sampleEntry (1/2) 0 None 3 False]"
  obtain q1 hs1 where b: "backup noStatistics ?hs = Inr (q1, hs1)"
    by (simp add: backup_def sampleEntry_def)
  have fr: "\<forall>i<length ?hs - 1. \<not> hasBeenBackedUp (?hs ! i)"
    by (simp add: sampleEntry_def)
  from backup_then_undoBackup [OF b] fr show ?thesis using b by fastforce
qed

text \<open>
  Claim C2 as stated fails on a sequence that had been backed up before: the backup
  adds the change of the total (here none) and no visit, the undoing takes the whole
  total and a visit away, and the action that had one visit is left with none.
\<close>

theorem backup_then_undoBackup_counterexample:
  "backup (updateQValue noStatistics 0 0 5 1)
     [sampleEntry 1 2 (Some 0) 5 True, sampleEntry (1/2) 0 None 3 False]
     = Inr (updateQValue noStatistics 0 0 5 1,
            [sampleEntry 1 2 (Some 0) 5 True, sampleEntry (1/2) 0 None 3 False])
   \<and> undoBackup (updateQValue noStatistics 0 0 5 1)
        [sampleEntry 1 2 (Some 0) 5 True, sampleEntry (1/2) 0 None 3 False]
     = Inr (noStatistics,
            [sampleEntry 1 2 (Some 0) 5 False, sampleEntry (1/2) 0 None 3 False], [])
   \<and> visitCount (updateQValue noStatistics 0 0 5 1 (0, 0)) = 1
   \<and> visitCount (noStatistics (0, 0)) = 0"
  apply (simp add: backup_def undoBackup_def sampleEntry_def updateQValue_zero updateQValue_merge)
  apply (simp add: updateQValue_def noStatistics_def)
  done

section \<open>Undoing a backup that was not done\<close>





section \<open>The searches that improveSol starts\<close>

lemma sampleParticles_result:
  assumes rng: "\<forall>lo hi g. lo \<le> hi \<longrightarrow>
                  lo \<le> fst (uniform_int_distribution m lo hi g)
                  \<and> fst (uniform_int_distribution m lo hi g) \<le> hi"
    and ne: "ps \<noteq> []"
  shows "\<exists>samples errs g'. sampleParticles m ps sts k g = Inr (samples, errs, g')
     \<and> length samples = k \<and> set samples \<subseteq> particleStateInfo ` set ps"
proof (induction k arbitrary: g)
  case 0
  show ?case by simp
next
  case (Suc k)
  obtain index g1 where u: "uniform_int_distribution m 0 (int (length ps) - 1) g = (index, g1)"
    by force
  from ne have "0 \<le> int (length ps) - 1" by (cases ps) simp_all
  from rng [rule_format, OF this, of g] u have r: "0 \<le> index" "index \<le> int (length ps) - 1"
    by simp_all
  then have lt: "nat index < length ps" by linarith
  from Suc.IH [of g1] obtain samples errs g' where
    ih: "sampleParticles m ps sts k g1 = Inr (samples, errs, g')" "length samples = k"
        "set samples \<subseteq> particleStateInfo ` set ps"
    by blast
  from lt have "particleStateInfo (ps ! nat index) \<in> particleStateInfo ` set ps" by simp
  with u r ih show ?case by (auto simp: Let_def)
qed

text \<open>
  Claim C9. On a start node without particles \<^verbatim>\<open>improveSol\<close> ends the process with
  status 10, and no search has been started. On a node with particles, and with a
  \<^verbatim>\<open>uniform_int_distribution\<close> that keeps to its bounds, it returns, and the searches it
  starts are \<open>maxTrials\<close> in number (none when \<open>maxTrials\<close> is negative), each from
  that node and from the state of one of its particles.
\<close>

theorem improveSol_exit_or_searches:
  "(particles (node s startNode) = [] \<longrightarrow>
      improveSol m startNode maxTrials maximumDepth s = Inl (ProcessExit 10))
   \<and> (particles (node s startNode) \<noteq> [] \<and>
        (\<forall>lo hi g. lo \<le> hi \<longrightarrow>
            lo \<le> fst (uniform_int_distribution m lo hi g)
            \<and> fst (uniform_int_distribution m lo hi g) \<le> hi) \<longrightarrow>
      (\<exists>searches errs s'.
          improveSol m startNode maxTrials maximumDepth s = Inr (searches, errs, s')
          \<and> int (length searches) = max 0 maxTrials
          \<and> (\<forall>c\<in>set searches. fst c = startNode
                \<and> fst (snd c) \<in> particleStateInfo ` set (particles (node s startNode)))))"
proof (intro conjI impI)
  assume "particles (node s startNode) = []"
  then show "improveSol m startNode maxTrials maximumDepth s = Inl (ProcessExit 10)"
    by (simp add: improveSol_def)
next
  assume a: "particles (node s startNode) \<noteq> [] \<and>
        (\<forall>lo hi g. lo \<le> hi \<longrightarrow>
            lo \<le> fst (uniform_int_distribution m lo hi g)
            \<and> fst (uniform_int_distribution m lo hi g) \<le> hi)"
  from sampleParticles_result [of m "particles (node s startNode)" "statesByIndex s"
      "nat maxTrials" "randGen s"] a
  obtain samples errs g' where
    sp: "sampleParticles m (particles (node s startNode)) (statesByIndex s) (nat maxTrials) (randGen s)
           = Inr (samples, errs, g')" and
    len: "length samples = nat maxTrials" and
    sub: "set samples \<subseteq> particleStateInfo ` set (particles (node s startNode))"
    by blast
  from a sp len sub
  show "\<exists>searches errs s'.
          improveSol m startNode maxTrials maximumDepth s = Inr (searches, errs, s')
          \<and> int (length searches) = max 0 maxTrials
          \<and> (\<forall>c\<in>set searches. fst c = startNode
                \<and> fst (snd c) \<in> particleStateInfo ` set (particles (node s startNode)))"
    by (auto simp: improveSol_def Let_def)
qed

theorem improveSol_exit_or_searches_witness:
  "improveSol (sampleEnvironment 10 (\<lambda>k. 0)) 0 3 5
     (Solver [] (sampleEnvironment 10 (\<lambda>k. 0)) [0] sampleNodes []) = Inl (ProcessExit 10)
   \<and> (\<exists>errs s'. improveSol (sampleEnvironment 10 (\<lambda>k. 0)) 0 3 5
     (Solver [] (sampleEnvironment 10 (\<lambda>k. 0)) [0]
        (\<lambda>n. (sampleNodes n)\<lparr>particles := [\<lparr>particleStateInfo = 7, particleEntryId = 2,
                                             particleStartDepth = 1\<rparr>]\<rparr>) [7])
      = Inr ([(0, 7, 3, 1, 5), (0, 7, 3, 1, 5), (0, 7, 3, 1, 5)], errs, s'))"
proof -
  let ?m = "sampleEnvironment 10 (\<lambda>k. 0)"
  let ?s0 = "Solver [] ?m [0] sampleNodes []"
  let ?s1 = "Solver [] ?m [0]
        (\<lambda>n. (sampleNodes n)\<lparr>particles := [\<lparr>particleStateInfo = 7, particleEntryId = 2,
                                             particleStartDepth = 1\<rparr>]\<rparr>) [7]"
  have e: "particles (node ?s0 0) = []"
    by (simp add: Solver_def sampleNodes_def sampleNode_def)
  have ne: "particles (node ?s1 0) \<noteq> []" by (simp add: Solver_def)
  have rng: "\<forall>lo hi g. lo \<le> hi \<longrightarrow>
            lo \<le> fst (uniform_int_distribution ?m lo hi g)
            \<and> fst (uniform_int_distribution ?m lo hi g) \<le> hi"
    by (simp add: sampleEnvironment_def)
  from improveSol_exit_or_searches [of ?s0 0 ?m 3 5] e
  have A: "improveSol ?m 0 3 5 ?s0 = Inl (ProcessExit 10)" by blast
  from improveSol_exit_or_searches [of ?s1 0 ?m 3 5] ne rng
  obtain searches errs s' where r: "improveSol ?m 0 3 5 ?s1 = Inr (searches, errs, s')"
    by blast
  then have "searches = [(0, 7, 3, 1, 5), (0, 7, 3, 1, 5), (0, 7, 3, 1, 5)]"
    by (auto simp: improveSol_def Solver_def sampleEnvironment_def Let_def eval_nat_numeral)
  with A r show ?thesis by blast
qed

section \<open>The order of the calls in applyChanges\<close>

lemma collectEntries_distinct:
  "collectEntries flags refs p affected = Inr (p', affected') \<Longrightarrow> distinct affected
   \<Longrightarrow> distinct affected'"
proof (induction flags refs p affected rule: collectEntries.induct)
  case (1 flags p affected)
  then show ?case by simp
next
  case (2 flags sid entryId rest p affected)
  from "2.prems"(1) obtain seq where seq: "allHistories p sid = Some seq"
    by (auto split: option.splits)
  from "2.prems"(1) seq have le: "\<not> length (histSeq seq) \<le> entryId"
    by (auto split: if_splits)
  have d: "distinct (if sid \<in> set affected then affected else affected @ [sid])"
    using "2.prems"(2) by simp
  from "2.prems"(1) seq le show ?case
    by (auto simp: Let_def intro: "2.IH" [OF seq le refl refl refl refl _ d])
qed

lemma collectAffected_distinct:
  "collectAffected sis p affected = Inr (p', affected') \<Longrightarrow> distinct affected
   \<Longrightarrow> distinct affected'"
proof (induction sis arbitrary: p affected)
  case Nil
  then show ?case by simp
next
  case (Cons si sis)
  from Cons.prems(1) obtain p1 a1 where
    c: "collectEntries (stateChangeFlags si) (usedInHistoryEntries si) p affected = Inr (p1, a1)"
    and r: "collectAffected sis p1 a1 = Inr (p', affected')"
    by (auto split: sum.splits)
  from collectEntries_distinct [OF c Cons.prems(2)] Cons.IH [OF r] show ?case by simp
qed

lemma undoBackupLoop_changeFlags:
  "undoBackupLoop q es = Inr (q', es', errs) \<Longrightarrow> map changeFlags es' = map changeFlags es"
  by (induction es arbitrary: q q' es' errs)
     (auto split: if_splits option.splits sum.splits)

lemma undoBackup_first_changeFlags:
  assumes "undoBackup q es = Inr (q', es', errs)"
  shows "changeFlags (es' ! 0) = changeFlags (es ! 0)"
proof -
  from assms obtain l rest where rv: "rev es = l # rest"
    by (cases "rev es") (auto simp: undoBackup_def)
  from assms rv obtain rest' where
    u: "undoBackupLoop q rest = Inr (q', rest', errs)" and es': "es' = rev (l # rest')"
    by (auto simp: undoBackup_def split: sum.splits)
  have es: "es = rev (l # rest)" using rv by (metis rev_rev_ident)
  from undoBackupLoop_changeFlags [OF u]
  have "map changeFlags es' = map changeFlags es"
    by (simp add: es es' rev_map [symmetric] del: rev_map)
  moreover have "es \<noteq> []" using es by simp
  moreover have "es' \<noteq> []" using es' by simp
  ultimately show ?thesis
    by (metis length_greater_0_conv length_map nth_map)
qed

lemma undoAndPurge_present:
  "undoAndPurge affected p = Inr (p2, kept, evs) \<Longrightarrow> distinct affected \<Longrightarrow>
   \<forall>sid\<in>set affected. \<exists>seq. allHistories p sid = Some seq \<and> histSeq seq \<noteq> []"
proof (induction affected arbitrary: p p2 kept evs)
  case Nil
  then show ?case by simp
next
  case (Cons sid rest)
  from Cons.prems(1) obtain seq where seq: "allHistories p sid = Some seq"
    by (auto split: option.splits)
  from Cons.prems(1) seq obtain q' es' errs where
    ub: "undoBackup (qTable p) (histSeq seq) = Inr (q', es', errs)"
    by (auto split: sum.splits)
  then have ne: "histSeq seq \<noteq> []" by (auto simp: undoBackup_def)
  from Cons.prems(2) have nin: "sid \<notin> set rest" and dr: "distinct rest" by simp_all
  from Cons.prems(1) seq ub obtain pm kept' evs' where
    r: "undoAndPurge rest pm = Inr (p2, kept', evs')" and
    same: "\<forall>x. x \<noteq> sid \<longrightarrow> allHistories pm x = allHistories p x"
    by (auto simp: Let_def deleteHistorySequence_def split: sum.splits if_splits)
  note ih = Cons.IH [OF r dr]
  show ?case
  proof
    fix x assume x: "x \<in> set (sid # rest)"
    show "\<exists>seq. allHistories p x = Some seq \<and> histSeq seq \<noteq> []"
    proof (cases "x = sid")
      case True
      with seq ne show ?thesis by simp
    next
      case False
      with x have "x \<in> set rest" by simp
      with ih obtain sq where "allHistories pm x = Some sq" "histSeq sq \<noteq> []" by blast
      with same False show ?thesis by simp
    qed
  qed
qed

lemma undoAndPurge_result:
  assumes "undoAndPurge affected p = Inr (p2, kept, evs)" and "distinct affected"
  shows "kept = filter (\<lambda>sid. \<not> firstEntryDeleted (the (allHistories p sid))) affected
     \<and> evs = concat (map (\<lambda>sid. Undone sid #
                 (if firstEntryDeleted (the (allHistories p sid)) then [Deleted sid] else []))
               affected)
     \<and> (\<forall>sid\<in>set affected. firstEntryDeleted (the (allHistories p sid))
            \<longrightarrow> allHistories p2 sid = None)
     \<and> (\<forall>sid. sid \<notin> set affected \<longrightarrow> allHistories p2 sid = allHistories p sid)"
  using assms
proof (induction affected arbitrary: p p2 kept evs)
  case Nil
  then show ?case by simp
next
  case (Cons sid rest)
  from Cons.prems(1) obtain seq where seq: "allHistories p sid = Some seq"
    by (auto split: option.splits)
  from Cons.prems(1) seq obtain q' es' errs where
    ub: "undoBackup (qTable p) (histSeq seq) = Inr (q', es', errs)"
    by (auto split: sum.splits)
  define p1 where "p1 = p\<lparr>allHistories := (allHistories p)(sid \<mapsto> seq\<lparr>histSeq := es'\<rparr>),
                           qTable := q', cerrLog := cerrLog p @ errs\<rparr>"
  have fd: "firstEntryDeleted (seq\<lparr>histSeq := es'\<rparr>) = firstEntryDeleted seq"
    using undoBackup_first_changeFlags [OF ub] by (simp add: firstEntryDeleted_def)
  from Cons.prems(2) have nin: "sid \<notin> set rest" and dr: "distinct rest" by simp_all
  show ?case
  proof (cases "firstEntryDeleted seq")
    case True
    define pd where "pd = deleteHistorySequence p1 sid"
    from Cons.prems(1) seq ub True fd obtain evs' where
      r: "undoAndPurge rest pd = Inr (p2, kept, evs')" and
      evs: "evs = Undone sid # Deleted sid # evs'"
      by (auto simp: Let_def p1_def pd_def split: sum.splits)
    have same: "\<And>x. x \<in> set rest \<Longrightarrow> allHistories pd x = allHistories p x"
      using nin by (auto simp: pd_def p1_def deleteHistorySequence_def)
    have other: "\<And>x. x \<noteq> sid \<Longrightarrow> allHistories pd x = allHistories p x"
      by (simp add: pd_def p1_def deleteHistorySequence_def)
    have gone: "allHistories pd sid = None"
      by (simp add: pd_def deleteHistorySequence_def)
    from Cons.IH [OF r dr] have
      k: "kept = filter (\<lambda>x. \<not> firstEntryDeleted (the (allHistories pd x))) rest" and
      e: "evs' = concat (map (\<lambda>x. Undone x #
                 (if firstEntryDeleted (the (allHistories pd x)) then [Deleted x] else [])) rest)" and
      d: "\<forall>x\<in>set rest. firstEntryDeleted (the (allHistories pd x)) \<longrightarrow> allHistories p2 x = None" and
      o: "\<forall>x. x \<notin> set rest \<longrightarrow> allHistories p2 x = allHistories pd x"
      by simp_all
    have k': "kept = filter (\<lambda>x. \<not> firstEntryDeleted (the (allHistories p x))) (sid # rest)"
      using k same seq True by (simp cong: filter_cong)
    have e': "evs = concat (map (\<lambda>x. Undone x #
                 (if firstEntryDeleted (the (allHistories p x)) then [Deleted x] else [])) (sid # rest))"
      using e evs same seq True by (simp cong: map_cong)
    have d': "\<forall>x\<in>set (sid # rest). firstEntryDeleted (the (allHistories p x)) \<longrightarrow> allHistories p2 x = None"
      using d o same nin gone by auto
    have o': "\<forall>x. x \<notin> set (sid # rest) \<longrightarrow> allHistories p2 x = allHistories p x"
      using o other by auto
    from k' e' d' o' show ?thesis by blast
  next
    case False
    from Cons.prems(1) seq ub False fd obtain kept' evs' where
      r: "undoAndPurge rest p1 = Inr (p2, kept', evs')" and
      kept: "kept = sid # kept'" and evs: "evs = Undone sid # evs'"
      by (auto simp: Let_def p1_def split: sum.splits)
    have same: "\<And>x. x \<in> set rest \<Longrightarrow> allHistories p1 x = allHistories p x"
      using nin by (auto simp: p1_def)
    have other: "\<And>x. x \<noteq> sid \<Longrightarrow> allHistories p1 x = allHistories p x"
      by (simp add: p1_def)
    from Cons.IH [OF r dr] have
      k: "kept' = filter (\<lambda>x. \<not> firstEntryDeleted (the (allHistories p1 x))) rest" and
      e: "evs' = concat (map (\<lambda>x. Undone x #
                 (if firstEntryDeleted (the (allHistories p1 x)) then [Deleted x] else [])) rest)" and
      d: "\<forall>x\<in>set rest. firstEntryDeleted (the (allHistories p1 x)) \<longrightarrow> allHistories p2 x = None" and
      o: "\<forall>x. x \<notin> set rest \<longrightarrow> allHistories p2 x = allHistories p1 x"
      by simp_all
    have k': "kept = filter (\<lambda>x. \<not> firstEntryDeleted (the (allHistories p x))) (sid # rest)"
      using k kept same seq False by (simp cong: filter_cong)
    have e': "evs = concat (map (\<lambda>x. Undone x #
                 (if firstEntryDeleted (the (allHistories p x)) then [Deleted x] else [])) (sid # rest))"
      using e evs same seq False by (simp cong: map_cong)
    have d': "\<forall>x\<in>set (sid # rest). firstEntryDeleted (the (allHistories p x)) \<longrightarrow> allHistories p2 x = None"
      using d same seq False by auto
    have o': "\<forall>x. x \<notin> set (sid # rest) \<longrightarrow> allHistories p2 x = allHistories p x"
      using o other by auto
    from k' e' d' o' show ?thesis by blast
  qed
qed


lemma collectEntries_set:
  "collectEntries flags refs p affected = Inr (p', affected')
   \<Longrightarrow> set affected' = set affected \<union> fst ` set refs"
proof (induction flags refs p affected rule: collectEntries.induct)
  case (1 flags p affected)
  then show ?case by simp
next
  case (2 flags sid entryId rest p affected)
  from "2.prems"(1) obtain seq where seq: "allHistories p sid = Some seq"
    by (auto split: option.splits)
  from "2.prems"(1) seq have le: "\<not> length (histSeq seq) \<le> entryId"
    by (auto split: if_splits)
  from "2.prems"(1) seq le obtain pm where
    r: "collectEntries flags rest pm (if sid \<in> set affected then affected else affected @ [sid])
          = Inr (p', affected')"
    and pm: "pm = p\<lparr>allHistories := (allHistories p)(sid \<mapsto>
        (let seq1 = setChangeFlags seq entryId flags;
             entryFlags = changeFlags (histSeq seq1 ! entryId);
             seq2 = (if DELETED \<in> entryFlags \<and> entryId > 0
                     then setChangeFlags seq1 (entryId - 1) {TRANSITION} else seq1)
         in (if OBSERVATION_BEFORE \<in> entryFlags \<and> entryId > 0
                     then setChangeFlags seq2 (entryId - 1) {OBSERVATION} else seq2)))\<rparr>"
    by (simp add: Let_def)
  from "2.IH" [OF seq le refl refl refl refl] r pm
  have "set affected' = set (if sid \<in> set affected then affected else affected @ [sid])
          \<union> fst ` set rest"
    by (simp add: Let_def)
  then show ?case by auto
qed

lemma collectAffected_set:
  "collectAffected sis p affected = Inr (p', affected')
   \<Longrightarrow> set affected' = set affected \<union> (\<Union>si\<in>set sis. fst ` set (usedInHistoryEntries si))"
proof (induction sis arbitrary: p affected)
  case Nil
  then show ?case by simp
next
  case (Cons si sis)
  from Cons.prems(1) obtain p1 a1 where
    c: "collectEntries (stateChangeFlags si) (usedInHistoryEntries si) p affected = Inr (p1, a1)"
    and r: "collectAffected sis p1 a1 = Inr (p', affected')"
    by (auto split: sum.splits)
  from collectEntries_set [OF c] Cons.IH [OF r] show ?case by auto
qed

lemma undoBackupLoop_cleared:
  "undoBackupLoop q es = Inr (q', es', errs) \<Longrightarrow> \<forall>e\<in>set es'. \<not> hasBeenBackedUp e"
  by (induction es arbitrary: q q' es' errs)
     (auto split: if_splits option.splits sum.splits)

lemma undoBackup_cleared:
  assumes "undoBackup q es = Inr (q', es', errs)"
  shows "\<forall>i<length es' - 1. \<not> hasBeenBackedUp (es' ! i)"
proof -
  from assms obtain l rest where rv: "rev es = l # rest"
    by (cases "rev es") (auto simp: undoBackup_def)
  from assms rv obtain rest' where
    u: "undoBackupLoop q rest = Inr (q', rest', errs)" and es': "es' = rev rest' @ [l]"
    by (auto simp: undoBackup_def split: sum.splits)
  show ?thesis
  proof (intro allI impI)
    fix i assume "i < length es' - 1"
    then have i: "i < length (rev rest')" by (simp add: es')
    then have "es' ! i = rev rest' ! i" by (simp add: es' nth_append)
    moreover from i have "rev rest' ! i \<in> set rest'" by (metis nth_mem set_rev)
    ultimately show "\<not> hasBeenBackedUp (es' ! i)"
      using undoBackupLoop_cleared [OF u] by simp
  qed
qed

lemma undoAndPurge_undone:
  assumes "undoAndPurge affected p = Inr (p2, kept, evs)" and "distinct affected"
  shows "\<exists>qs. length qs = Suc (length affected) \<and> qs ! 0 = qTable p
      \<and> qs ! length affected = qTable p2
      \<and> (\<forall>k<length affected. \<exists>seq es errs.
            allHistories p (affected ! k) = Some seq
          \<and> undoBackup (qs ! k) (histSeq seq) = Inr (qs ! Suc k, es, errs)
          \<and> (affected ! k \<in> set kept
               \<longrightarrow> allHistories p2 (affected ! k) = Some (seq\<lparr>histSeq := es\<rparr>)))"
  using assms
proof (induction affected arbitrary: p p2 kept evs)
  case Nil
  then show ?case by (auto intro: exI [of _ "[qTable p]"])
next
  case (Cons sid rest)
  from Cons.prems(1) obtain seq where seq: "allHistories p sid = Some seq"
    by (auto split: option.splits)
  from Cons.prems(1) seq obtain q' es' errs where
    ub: "undoBackup (qTable p) (histSeq seq) = Inr (q', es', errs)"
    by (auto split: sum.splits)
  from Cons.prems(2) have nin: "sid \<notin> set rest" and dr: "distinct rest" by simp_all
  from Cons.prems(1) seq ub obtain pm kept' evs' where
    r: "undoAndPurge rest pm = Inr (p2, kept', evs')" and
    q: "qTable pm = q'" and
    same: "\<forall>x. x \<noteq> sid \<longrightarrow> allHistories pm x = allHistories p x" and
    k: "kept = kept' \<and> allHistories pm sid = None
        \<or> kept = sid # kept' \<and> allHistories pm sid = Some (seq\<lparr>histSeq := es'\<rparr>)"
    by (auto simp: Let_def deleteHistorySequence_def split: sum.splits if_splits)
  from undoAndPurge_result [OF r dr] have
    ks: "set kept' \<subseteq> set rest" and
    o: "\<forall>x. x \<notin> set rest \<longrightarrow> allHistories p2 x = allHistories pm x"
    by auto
  from Cons.IH [OF r dr] q obtain qs' where
    l: "length qs' = Suc (length rest)" and z: "qs' ! 0 = q'" and
    e: "qs' ! length rest = qTable p2" and
    st: "\<forall>j<length rest. \<exists>sq es errs.
            allHistories pm (rest ! j) = Some sq
          \<and> undoBackup (qs' ! j) (histSeq sq) = Inr (qs' ! Suc j, es, errs)
          \<and> (rest ! j \<in> set kept'
               \<longrightarrow> allHistories p2 (rest ! j) = Some (sq\<lparr>histSeq := es\<rparr>))"
    by auto
  have first: "sid \<in> set kept \<longrightarrow> allHistories p2 sid = Some (seq\<lparr>histSeq := es'\<rparr>)"
    using k ks nin o by auto
  have "\<forall>k<length (sid # rest). \<exists>sq es errs.
            allHistories p ((sid # rest) ! k) = Some sq
          \<and> undoBackup ((qTable p # qs') ! k) (histSeq sq) = Inr ((qTable p # qs') ! Suc k, es, errs)
          \<and> ((sid # rest) ! k \<in> set kept
               \<longrightarrow> allHistories p2 ((sid # rest) ! k) = Some (sq\<lparr>histSeq := es\<rparr>))"
  proof (intro allI impI)
    fix k assume kl: "k < length (sid # rest)"
    show "\<exists>sq es errs.
            allHistories p ((sid # rest) ! k) = Some sq
          \<and> undoBackup ((qTable p # qs') ! k) (histSeq sq) = Inr ((qTable p # qs') ! Suc k, es, errs)
          \<and> ((sid # rest) ! k \<in> set kept
               \<longrightarrow> allHistories p2 ((sid # rest) ! k) = Some (sq\<lparr>histSeq := es\<rparr>))"
    proof (cases k)
      case 0
      with seq ub z first show ?thesis by simp
    next
      case (Suc j)
      with kl have jl: "j < length rest" by simp
      then have mem: "rest ! j \<in> set rest" by simp
      with nin have ne: "rest ! j \<noteq> sid" by auto
      from st jl obtain sq es errs where
        a: "allHistories pm (rest ! j) = Some sq" and
        b: "undoBackup (qs' ! j) (histSeq sq) = Inr (qs' ! Suc j, es, errs)" and
        c: "rest ! j \<in> set kept' \<longrightarrow> allHistories p2 (rest ! j) = Some (sq\<lparr>histSeq := es\<rparr>)"
        by blast
      from a same ne have a': "allHistories p (rest ! j) = Some sq" by simp
      from c k ne have c': "rest ! j \<in> set kept
          \<longrightarrow> allHistories p2 (rest ! j) = Some (sq\<lparr>histSeq := es\<rparr>)" by auto
      from a' b c' show ?thesis unfolding Suc by simp
    qed
  qed
  moreover have "length (qTable p # qs') = Suc (length (sid # rest))" using l by simp
  moreover have "(qTable p # qs') ! 0 = qTable p" by simp
  moreover have "(qTable p # qs') ! length (sid # rest) = qTable p2" using e by simp
  ultimately show ?case by blast
qed

lemma reintegrate_chain:
  assumes "reintegrate C kept p = Inr (p', evs)"
  shows "\<exists>ps. length ps = Suc (length kept) \<and> ps ! 0 = p \<and> ps ! length kept = p'
      \<and> length evs = 2 * length kept
      \<and> (\<forall>k<length kept. \<exists>seq seq1 t1.
            allHistories (ps ! k) (kept ! k) = Some seq
          \<and> fixLinks C seq (policy (ps ! k)) = Inr (seq1, t1)
          \<and> evs ! (2 * k) = Relinked (kept ! k)
          \<and> (if isTerminal (resetChangeFlags seq1)
             then \<exists>q' es.
                    backup (qTable (ps ! k)) (histSeq (resetChangeFlags seq1)) = Inr (q', es)
                  \<and> ps ! Suc k = (ps ! k)\<lparr>policy := t1, allHistories :=
                        (allHistories (ps ! k))(kept ! k \<mapsto> (resetChangeFlags seq1)\<lparr>histSeq := es\<rparr>),
                        qTable := q'\<rparr>
                  \<and> evs ! Suc (2 * k) = BackedUp (kept ! k)
             else continueSearch C (kept ! k)
                    ((ps ! k)\<lparr>allHistories :=
                        (allHistories (ps ! k))(kept ! k \<mapsto> resetChangeFlags seq1),
                        policy := t1\<rparr>) = Inr (ps ! Suc k)
                  \<and> evs ! Suc (2 * k) = Continued (kept ! k)))"
proof -
  define step where "step = (\<lambda>(pk :: 'a planner) pn sid e1 e2. \<exists>seq seq1 t1.
            allHistories pk sid = Some seq
          \<and> fixLinks C seq (policy pk) = Inr (seq1, t1)
          \<and> e1 = Relinked sid
          \<and> (if isTerminal (resetChangeFlags seq1)
             then \<exists>q' es.
                    backup (qTable pk) (histSeq (resetChangeFlags seq1)) = Inr (q', es)
                  \<and> pn = pk\<lparr>policy := t1, allHistories :=
                        (allHistories pk)(sid \<mapsto> (resetChangeFlags seq1)\<lparr>histSeq := es\<rparr>),
                        qTable := q'\<rparr>
                  \<and> e2 = BackedUp sid
             else continueSearch C sid
                    (pk\<lparr>allHistories := (allHistories pk)(sid \<mapsto> resetChangeFlags seq1),
                        policy := t1\<rparr>) = Inr pn
                  \<and> e2 = Continued sid))"
  have "\<exists>ps. length ps = Suc (length kept) \<and> ps ! 0 = p \<and> ps ! length kept = p'
      \<and> length evs = 2 * length kept
      \<and> (\<forall>k<length kept. step (ps ! k) (ps ! Suc k) (kept ! k) (evs ! (2 * k)) (evs ! Suc (2 * k)))"
    using assms
  proof (induction kept arbitrary: p evs)
    case Nil
    then show ?case by (auto intro: exI [of _ "[p]"])
  next
    case (Cons sid rest)
    from Cons.prems obtain seq where seq: "allHistories p sid = Some seq"
      by (auto split: option.splits)
    from Cons.prems seq obtain seq1 t1 where fl: "fixLinks C seq (policy p) = Inr (seq1, t1)"
      by (auto split: sum.splits)
    have "\<exists>pm e2 evs'. reintegrate C rest pm = Inr (p', evs') \<and> evs = Relinked sid # e2 # evs'
        \<and> step p pm sid (Relinked sid) e2"
    proof (cases "isTerminal (resetChangeFlags seq1)")
      case True
      from Cons.prems seq fl True obtain q' es where
        b: "backup (qTable p) (histSeq (resetChangeFlags seq1)) = Inr (q', es)"
        by (auto simp: Let_def split: sum.splits)
      define pm where "pm = p\<lparr>policy := t1, allHistories :=
          (allHistories p)(sid \<mapsto> (resetChangeFlags seq1)\<lparr>histSeq := es\<rparr>),
          qTable := q'\<rparr>"
      from Cons.prems seq fl True b
      have "\<exists>evs'. reintegrate C rest pm = Inr (p', evs')
          \<and> evs = Relinked sid # BackedUp sid # evs'"
        by (auto simp: Let_def pm_def split: sum.splits)
      moreover have "step p pm sid (Relinked sid) (BackedUp sid)"
        unfolding step_def using seq fl True b pm_def by auto
      ultimately show ?thesis by blast
    next
      case False
      from Cons.prems seq fl False obtain pm where
        c: "continueSearch C sid
              (p\<lparr>allHistories := (allHistories p)(sid \<mapsto> resetChangeFlags seq1),
                 policy := t1\<rparr>) = Inr pm"
        by (auto simp: Let_def split: sum.splits)
      from Cons.prems seq fl False c
      have "\<exists>evs'. reintegrate C rest pm = Inr (p', evs')
          \<and> evs = Relinked sid # Continued sid # evs'"
        by (auto simp: Let_def split: sum.splits)
      moreover have "step p pm sid (Relinked sid) (Continued sid)"
        unfolding step_def using seq fl False c by auto
      ultimately show ?thesis by blast
    qed
    then obtain pm e2 evs' where
      r: "reintegrate C rest pm = Inr (p', evs')" and
      evs: "evs = Relinked sid # e2 # evs'" and
      s: "step p pm sid (Relinked sid) e2"
      by blast
    from Cons.IH [OF r] obtain ps' where
      l: "length ps' = Suc (length rest)" and z: "ps' ! 0 = pm" and
      e: "ps' ! length rest = p'" and le: "length evs' = 2 * length rest" and
      st: "\<forall>j<length rest. step (ps' ! j) (ps' ! Suc j) (rest ! j) (evs' ! (2 * j))
                (evs' ! Suc (2 * j))"
      by auto
    have "\<forall>k<length (sid # rest). step ((p # ps') ! k) ((p # ps') ! Suc k) ((sid # rest) ! k)
            (evs ! (2 * k)) (evs ! Suc (2 * k))"
    proof (intro allI impI)
      fix k assume kl: "k < length (sid # rest)"
      show "step ((p # ps') ! k) ((p # ps') ! Suc k) ((sid # rest) ! k)
            (evs ! (2 * k)) (evs ! Suc (2 * k))"
      proof (cases k)
        case 0
        with s z evs show ?thesis by simp
      next
        case (Suc j)
        with kl have "j < length rest" by simp
        with st have "step (ps' ! j) (ps' ! Suc j) (rest ! j) (evs' ! (2 * j))
                (evs' ! Suc (2 * j))" by simp
        then show ?thesis unfolding Suc evs by simp
      qed
    qed
    moreover have "length (p # ps') = Suc (length (sid # rest))" using l by simp
    moreover have "(p # ps') ! 0 = p" by simp
    moreover have "(p # ps') ! length (sid # rest) = p'" using e by simp
    moreover have "length evs = 2 * length (sid # rest)" using le evs by simp
    ultimately show ?case by blast
  qed
  then show ?thesis unfolding step_def .
qed

text \<open>
  Claim C3. The set \<^verbatim>\<open>affectedSequences\<close> is walked in an order that the sources do
  not fix; the theorem holds for every order that meets each element of the set once.
  When \<^verbatim>\<open>applyChanges\<close> returns, it has gone through three stages, one after the
  other.

  \<^item> The affected sequences, those with an entry that uses an affected state, have
    been walked, \<^verbatim>\<open>undoBackup\<close> called on each, on the statistics that the one before
    left (\<open>qs\<close> lists these), and each whose first entry is flagged \<open>DELETED\<close>
    deleted at once. In the state \<open>p2\<close> that this leaves, the statistics are the
    last of \<open>qs\<close>, every sequence flagged so is gone from the histories, every other
    affected sequence has the entries that its undoing returned, none of them but the
    last marked as backed up, and the sequences not affected are as they were.
  \<^item> The history corrector has been called once, on \<open>p2\<close> and on the sequences
    kept, which are the affected ones not flagged.
  \<^item> From the state that the corrector returned, the sequences kept, and no other,
    have been walked (\<open>ps\<close> lists the states between): each had its links fixed and
    its flags cleared, and then was backed up if terminal and searched further if not.

  The calls made are, in this order, those of the first stage, the call of the corrector,
  and those of the last stage.
\<close>

theorem applyChanges_order:
  assumes "applyChanges C affectedStates p = Inr (p', evs)"
    and "\<forall>xs. distinct xs \<longrightarrow> distinct (walkOrder C xs) \<and> set (walkOrder C xs) = set xs"
  shows "\<exists>p1 inserted affected p2 kept evs1 evs2 qs ps.
      collectAffected affectedStates p [] = Inr (p1, inserted)
    \<and> set inserted = (\<Union>si\<in>set affectedStates. fst ` set (usedInHistoryEntries si))
    \<and> affected = walkOrder C inserted \<and> distinct affected \<and> set affected = set inserted
    \<and> undoAndPurge affected p1 = Inr (p2, kept, evs1)
    \<and> reintegrate C kept (reviseHistories C kept p2) = Inr (p', evs2)
    \<and> evs = evs1 @ [Revised kept] @ evs2
    \<and> evs1 = concat (map (\<lambda>sid. Undone sid #
                 (if firstEntryDeleted (the (allHistories p1 sid)) then [Deleted sid] else []))
               affected)
    \<and> (\<forall>sid\<in>set affected. \<exists>seq. allHistories p1 sid = Some seq \<and> histSeq seq \<noteq> [])
    \<and> kept = filter (\<lambda>sid. \<not> firstEntryDeleted (the (allHistories p1 sid))) affected
    \<and> (\<forall>sid\<in>set affected. firstEntryDeleted (the (allHistories p1 sid))
          \<longrightarrow> allHistories p2 sid = None)
    \<and> (\<forall>sid. sid \<notin> set affected \<longrightarrow> allHistories p2 sid = allHistories p1 sid)
    \<and> length qs = Suc (length affected) \<and> qs ! 0 = qTable p1
    \<and> qs ! length affected = qTable p2
    \<and> (\<forall>k<length affected. \<exists>seq es errs.
            allHistories p1 (affected ! k) = Some seq
          \<and> undoBackup (qs ! k) (histSeq seq) = Inr (qs ! Suc k, es, errs)
          \<and> (affected ! k \<in> set kept
               \<longrightarrow> allHistories p2 (affected ! k) = Some (seq\<lparr>histSeq := es\<rparr>)))
    \<and> (\<forall>sid\<in>set kept. \<exists>seq. allHistories p2 sid = Some seq
          \<and> (\<forall>i<length (histSeq seq) - 1. \<not> hasBeenBackedUp (histSeq seq ! i)))
    \<and> length ps = Suc (length kept) \<and> ps ! 0 = reviseHistories C kept p2
    \<and> ps ! length kept = p'
    \<and> length evs2 = 2 * length kept
    \<and> (\<forall>k<length kept. \<exists>seq seq1 t1.
            allHistories (ps ! k) (kept ! k) = Some seq
          \<and> fixLinks C seq (policy (ps ! k)) = Inr (seq1, t1)
          \<and> evs2 ! (2 * k) = Relinked (kept ! k)
          \<and> (if isTerminal (resetChangeFlags seq1)
             then \<exists>q' es.
                    backup (qTable (ps ! k)) (histSeq (resetChangeFlags seq1)) = Inr (q', es)
                  \<and> ps ! Suc k = (ps ! k)\<lparr>policy := t1, allHistories :=
                        (allHistories (ps ! k))(kept ! k \<mapsto> (resetChangeFlags seq1)\<lparr>histSeq := es\<rparr>),
                        qTable := q'\<rparr>
                  \<and> evs2 ! Suc (2 * k) = BackedUp (kept ! k)
             else continueSearch C (kept ! k)
                    ((ps ! k)\<lparr>allHistories :=
                        (allHistories (ps ! k))(kept ! k \<mapsto> resetChangeFlags seq1),
                        policy := t1\<rparr>) = Inr (ps ! Suc k)
                  \<and> evs2 ! Suc (2 * k) = Continued (kept ! k)))"
proof -
  from assms(1) obtain p1 inserted where
    c: "collectAffected affectedStates p [] = Inr (p1, inserted)"
    by (auto simp: applyChanges_def split: sum.splits)
  define affected where "affected = walkOrder C inserted"
  have aff: "affected = walkOrder C inserted" by (simp add: affected_def)
  from assms(1) c obtain p2 kept evs1 where
    u: "undoAndPurge affected p1 = Inr (p2, kept, evs1)"
    by (auto simp: applyChanges_def affected_def split: sum.splits)
  from assms(1) c u obtain evs2 where
    r: "reintegrate C kept (reviseHistories C kept p2) = Inr (p', evs2)" and
    evs: "evs = evs1 @ [Revised kept] @ evs2"
    by (auto simp: applyChanges_def affected_def split: sum.splits)
  have di: "distinct inserted" using collectAffected_distinct [OF c] by simp
  with assms(2) have d: "distinct affected" and sa: "set affected = set inserted"
    by (simp_all add: affected_def)
  from collectAffected_set [OF c]
  have si: "set inserted = (\<Union>si\<in>set affectedStates. fst ` set (usedInHistoryEntries si))"
    by simp
  note up = undoAndPurge_result [OF u d]
  from up have e1: "evs1 = concat (map (\<lambda>sid. Undone sid #
                 (if firstEntryDeleted (the (allHistories p1 sid)) then [Deleted sid] else []))
               affected)" by simp
  from up have K: "kept = filter (\<lambda>sid. \<not> firstEntryDeleted (the (allHistories p1 sid))) affected"
    by simp
  from up have G: "\<forall>sid\<in>set affected. firstEntryDeleted (the (allHistories p1 sid))
          \<longrightarrow> allHistories p2 sid = None" by simp
  from up have O: "\<forall>sid. sid \<notin> set affected \<longrightarrow> allHistories p2 sid = allHistories p1 sid"
    by simp
  note pr = undoAndPurge_present [OF u d]
  from undoAndPurge_undone [OF u d] obtain qs where
    ql: "length qs = Suc (length affected)" and q0: "qs ! 0 = qTable p1" and
    qe: "qs ! length affected = qTable p2" and
    qc: "\<forall>k<length affected. \<exists>seq es errs.
            allHistories p1 (affected ! k) = Some seq
          \<and> undoBackup (qs ! k) (histSeq seq) = Inr (qs ! Suc k, es, errs)
          \<and> (affected ! k \<in> set kept
               \<longrightarrow> allHistories p2 (affected ! k) = Some (seq\<lparr>histSeq := es\<rparr>))"
    by blast
  have cl: "\<forall>sid\<in>set kept. \<exists>seq. allHistories p2 sid = Some seq
          \<and> (\<forall>i<length (histSeq seq) - 1. \<not> hasBeenBackedUp (histSeq seq ! i))"
  proof
    fix sid assume k: "sid \<in> set kept"
    with K have "sid \<in> set affected" by simp
    then obtain j where j: "j < length affected" and sj: "affected ! j = sid"
      by (auto simp: in_set_conv_nth)
    from qc j sj k obtain seq es errs where
      ub: "undoBackup (qs ! j) (histSeq seq) = Inr (qs ! Suc j, es, errs)" and
      a2: "allHistories p2 sid = Some (seq\<lparr>histSeq := es\<rparr>)"
      by blast
    from undoBackup_cleared [OF ub] a2
    show "\<exists>seq. allHistories p2 sid = Some seq
          \<and> (\<forall>i<length (histSeq seq) - 1. \<not> hasBeenBackedUp (histSeq seq ! i))"
      by simp
  qed
  from reintegrate_chain [OF r] obtain ps where
    pl: "length ps = Suc (length kept)" and p0: "ps ! 0 = reviseHistories C kept p2" and
    pe: "ps ! length kept = p'" and el: "length evs2 = 2 * length kept" and
    pc: "\<forall>k<length kept. \<exists>seq seq1 t1.
            allHistories (ps ! k) (kept ! k) = Some seq
          \<and> fixLinks C seq (policy (ps ! k)) = Inr (seq1, t1)
          \<and> evs2 ! (2 * k) = Relinked (kept ! k)
          \<and> (if isTerminal (resetChangeFlags seq1)
             then \<exists>q' es.
                    backup (qTable (ps ! k)) (histSeq (resetChangeFlags seq1)) = Inr (q', es)
                  \<and> ps ! Suc k = (ps ! k)\<lparr>policy := t1, allHistories :=
                        (allHistories (ps ! k))(kept ! k \<mapsto> (resetChangeFlags seq1)\<lparr>histSeq := es\<rparr>),
                        qTable := q'\<rparr>
                  \<and> evs2 ! Suc (2 * k) = BackedUp (kept ! k)
             else continueSearch C (kept ! k)
                    ((ps ! k)\<lparr>allHistories :=
                        (allHistories (ps ! k))(kept ! k \<mapsto> resetChangeFlags seq1),
                        policy := t1\<rparr>) = Inr (ps ! Suc k)
                  \<and> evs2 ! Suc (2 * k) = Continued (kept ! k))"
    by blast
  show ?thesis
    by (intro exI conjI)
       (rule c si aff d sa u r evs e1 pr K G O ql q0 qe qc cl pl p0 pe el pc)+
qed


theorem applyChanges_order_witness:
  "(\<exists>p'. applyChanges sampleCollaborators
      [\<lparr>stateChangeFlags = {DELETED}, usedInHistoryEntries = [(0, 0)]\<rparr>,
       \<lparr>stateChangeFlags = {REWARD}, usedInHistoryEntries = [(1, 0)]\<rparr>] samplePlanner
     = Inr (p', [Undone 1, Undone 0, Deleted 0, Revised [1], Relinked 1, BackedUp 1])
     \<and> allHistories p' 0 = None)
   \<and> (\<exists>p1 p2. collectAffected
      [\<lparr>stateChangeFlags = {DELETED}, usedInHistoryEntries = [(0, 0)]\<rparr>,
       \<lparr>stateChangeFlags = {REWARD}, usedInHistoryEntries = [(1, 0)]\<rparr>] samplePlanner []
         = Inr (p1, [0, 1])
     \<and> undoAndPurge [1, 0] p1 = Inr (p2, [1], [Undone 1, Undone 0, Deleted 0])
     \<and> qTable p1 (0, 0) = \<lparr>totalQValue = 5, visitCount = 1\<rparr>
     \<and> qTable p2 (0, 0) = \<lparr>totalQValue = 0, visitCount = 0\<rparr>
     \<and> allHistories p2 0 = None
     \<and> (\<exists>seq. allHistories p2 1 = Some seq \<and> length (histSeq seq) = 2
           \<and> \<not> hasBeenBackedUp (histSeq seq ! 0)))"
proof -
  let ?sts = "[\<lparr>stateChangeFlags = {DELETED}, usedInHistoryEntries = [(0, 0)]\<rparr>,
       \<lparr>stateChangeFlags = {REWARD}, usedInHistoryEntries = [(1, 0)]\<rparr>]"
  have w: "\<forall>xs. distinct xs \<longrightarrow> distinct (walkOrder sampleCollaborators xs)
           \<and> set (walkOrder sampleCollaborators xs) = set xs"
    by (simp add: sampleCollaborators_def)
  have wo: "walkOrder sampleCollaborators [0, Suc 0] = [Suc 0, 0]"
    by (simp add: sampleCollaborators_def)
  obtain p' evs where a: "applyChanges sampleCollaborators ?sts samplePlanner = Inr (p', evs)"
    and evs: "evs = [Undone 1, Undone 0, Deleted 0, Revised [1], Relinked 1, BackedUp 1]"
    and gone: "allHistories p' 0 = None"
    by (simp add: applyChanges_def samplePlanner_def sampleCollaborators_def sampleEntry_def
        setChangeFlags_def undoBackup_def backup_def firstEntryDeleted_def
        deleteHistorySequence_def fixLinks_def resetChangeFlags_def Let_def)
  obtain p1 where c: "collectAffected ?sts samplePlanner [] = Inr (p1, [0, Suc 0])"
    and q1: "qTable p1 (0, 0) = \<lparr>totalQValue = 5, visitCount = 1\<rparr>"
    and u: "\<exists>p2. undoAndPurge [Suc 0, 0] p1 = Inr (p2, [Suc 0], [Undone 1, Undone 0, Deleted 0])
          \<and> qTable p2 (0, 0) = \<lparr>totalQValue = 0, visitCount = 0\<rparr>
          \<and> allHistories p2 0 = None
          \<and> length (histSeq (the (allHistories p2 1))) = 2"
    by (simp add: samplePlanner_def sampleEntry_def setChangeFlags_def undoBackup_def
        firstEntryDeleted_def deleteHistorySequence_def updateQValue_def noStatistics_def
        Let_def)
  from u obtain p2 where
    u2: "undoAndPurge [Suc 0, 0] p1 = Inr (p2, [Suc 0], [Undone 1, Undone 0, Deleted 0])" and
    q2: "qTable p2 (0, 0) = \<lparr>totalQValue = 0, visitCount = 0\<rparr>" and
    g2: "allHistories p2 0 = None" and
    l2: "length (histSeq (the (allHistories p2 1))) = 2"
    by blast
  from applyChanges_order [OF a w]
  obtain pa ins aff pb kept where
    f1: "collectAffected ?sts samplePlanner [] = Inr (pa, ins)" and
    f2: "aff = walkOrder sampleCollaborators ins" and
    f3: "\<exists>evs1. undoAndPurge aff pa = Inr (pb, kept, evs1)" and
    f4: "\<forall>sid\<in>set kept. \<exists>seq. allHistories pb sid = Some seq
          \<and> (\<forall>i<length (histSeq seq) - 1. \<not> hasBeenBackedUp (histSeq seq ! i))"
    by (elim exE conjE) (rule that, assumption, assumption, rule exI, assumption, assumption)
  from f1 c have "pa = p1" "ins = [0, Suc 0]" by simp_all
  with f2 wo have "aff = [Suc 0, 0]" by simp
  with f3 u2 \<open>pa = p1\<close> have "pb = p2" "kept = [Suc 0]" by auto
  with f4 have "\<exists>seq. allHistories p2 1 = Some seq
          \<and> (\<forall>i<length (histSeq seq) - 1. \<not> hasBeenBackedUp (histSeq seq ! i))"
    by simp
  with l2 have h: "\<exists>seq. allHistories p2 1 = Some seq \<and> length (histSeq seq) = 2
           \<and> \<not> hasBeenBackedUp (histSeq seq ! 0)"
    by auto
  from c q1 u2 q2 g2 h
  have "\<exists>p1 p2. collectAffected ?sts samplePlanner [] = Inr (p1, [0, 1])
     \<and> undoAndPurge [1, 0] p1 = Inr (p2, [1], [Undone 1, Undone 0, Deleted 0])
     \<and> qTable p1 (0, 0) = \<lparr>totalQValue = 5, visitCount = 1\<rparr>
     \<and> qTable p2 (0, 0) = \<lparr>totalQValue = 0, visitCount = 0\<rparr>
     \<and> allHistories p2 0 = None
     \<and> (\<exists>seq. allHistories p2 1 = Some seq \<and> length (histSeq seq) = 2
           \<and> \<not> hasBeenBackedUp (histSeq seq ! 0))"
    unfolding One_nat_def by blast
  moreover from a evs gone have "\<exists>p'. applyChanges sampleCollaborators ?sts samplePlanner
     = Inr (p', [Undone 1, Undone 0, Deleted 0, Revised [1], Relinked 1, BackedUp 1])
     \<and> allHistories p' 0 = None"
    by blast
  ultimately show ?thesis by blast
qed

section \<open>The mixture of the rollout modes\<close>

lemma rm_all: "(\<forall>i::rollout_mode. P i) \<longleftrightarrow> P ROLLOUT_RANDHEURISTIC \<and> P ROLLOUT_POL"
  by (metis rollout_mode.exhaust)

lemma update_ok:
  assumes ok: "mixtureOK s" and c: "0 < heuristicExploreCoefficient s" "heuristicExploreCoefficient s < 1"
    and mv: "getMaxVal m \<noteq> 0"
  shows "\<exists>s'. updateHeuristicProbabilities m v s = Inr s'
     \<and> heuristicProbability s' ROLLOUT_RANDHEURISTIC + heuristicProbability s' ROLLOUT_POL = 1
     \<and> 0 < heuristicProbability s' ROLLOUT_RANDHEURISTIC \<and> 0 < heuristicProbability s' ROLLOUT_POL
     \<and> mixtureOK s' \<and> heuristicExploreCoefficient s' = heuristicExploreCoefficient s"
proof -
  define c where "c = heuristicExploreCoefficient s"
  define mode where "mode = lastRolloutMode s"
  define v' where "v' = (if v < 0 then 0 else v)"
  define w where "w = (heuristicWeight s)
                      (mode := heuristicWeight s mode
                               * exp (c * (v' / getMaxVal m) / (2 * heuristicProbability s mode)))"
  define totW where "totW = 0 + w ROLLOUT_RANDHEURISTIC + w ROLLOUT_POL"
  define p where "p = (\<lambda>i. ((1 - c) * w i / totW + c / 2)
                                 * real_of_int (heuristicUseCount s i)
                                 / timeUsedPerHeuristic s i)"
  define totP where "totP = 0 + p ROLLOUT_RANDHEURISTIC + p ROLLOUT_POL"
  from ok have pos: "\<And>i. 0 < heuristicWeight s i" "\<And>i. 0 < heuristicProbability s i"
    "\<And>i. 1 \<le> timeUsedPerHeuristic s i" "\<And>i. 1 \<le> heuristicUseCount s i"
    by (auto simp: mixtureOK_def)
  have wpos: "0 < w i" for i
    using pos(1) by (simp add: w_def)
  have totWpos: "0 < totW" using wpos by (simp add: totW_def add_pos_pos)
  have c01: "0 < c" "c < 1" using c by (simp_all add: c_def)
  have ppos: "0 < p i" for i
  proof -
    have "0 < (1 - c) * w i / totW" using c01 wpos totWpos by simp
    then have "0 < (1 - c) * w i / totW + c / 2" using c01 by (simp add: add_pos_pos)
    moreover have "0 < real_of_int (heuristicUseCount s i)" using pos(4) [of i] by simp
    moreover have "0 < timeUsedPerHeuristic s i" using pos(3) [of i] by simp
    ultimately show ?thesis by (simp add: p_def)
  qed
  have totPpos: "0 < totP" using ppos by (simp add: totP_def add_pos_pos)
  define s' where "s' = s\<lparr>heuristicWeight := w, heuristicProbability := (\<lambda>i. p i / totP)\<rparr>"
  have g1: "2 * heuristicProbability s mode \<noteq> 0" using pos(2) [of mode] by simp
  have g2: "timeUsedPerHeuristic s ROLLOUT_RANDHEURISTIC \<noteq> 0" "timeUsedPerHeuristic s ROLLOUT_POL \<noteq> 0"
    using pos(3) [of ROLLOUT_RANDHEURISTIC] pos(3) [of ROLLOUT_POL] by simp_all
  have res: "updateHeuristicProbabilities m v s = Inr s'"
    unfolding updateHeuristicProbabilities_def Let_def
    using mv g1 g2 totWpos totPpos
    by (simp add: s'_def totP_def p_def totW_def w_def v'_def mode_def c_def)
  have sum1: "heuristicProbability s' ROLLOUT_RANDHEURISTIC + heuristicProbability s' ROLLOUT_POL = 1"
    using totPpos by (simp add: s'_def totP_def add_divide_distrib [symmetric])
  have pp: "0 < heuristicProbability s' i" for i
    using ppos totPpos by (simp add: s'_def)
  have ok': "mixtureOK s'"
    using wpos pp pos by (simp add: mixtureOK_def s'_def)
  show ?thesis using res sum1 pp ok' by (simp add: s'_def)
qed

lemma countRollout_ok:
  assumes "mixtureOK s" "startT \<le> endT"
  shows "mixtureOK (countRollout mode startT endT s)"
proof -
  have "0 \<le> real_of_int (endT - startT) * 1000 / real_of_int CLOCKS_PER_SEC"
    using assms(2) by (simp add: CLOCKS_PER_SEC_def)
  moreover from assms(1) have "\<And>i. 1 \<le> timeUsedPerHeuristic s i" "\<And>i. 1 \<le> heuristicUseCount s i"
    "\<And>i. 0 < heuristicWeight s i" "\<And>i. 0 < heuristicProbability s i"
    by (simp_all add: mixtureOK_def)
  moreover have "0 \<le> heuristicUseCount s mode"
    using \<open>\<And>i. 1 \<le> heuristicUseCount s i\<close> [of mode] by simp
  ultimately show ?thesis
    unfolding mixtureOK_def countRollout_def
    by (simp add: add_increasing2)
qed

lemma countRollout_coefficient:
  "heuristicExploreCoefficient (countRollout mode startT endT s) = heuristicExploreCoefficient s"
  by (simp add: countRollout_def)

lemma rolloutRandHeuristic_ok:
  assumes r: "rolloutRandHeuristic m result sd df s = Inr (r, s')" and ok: "mixtureOK s"
    and mono: "\<forall>i j. i \<le> j \<longrightarrow> clock m i \<le> clock m j"
  shows "mixtureOK s' \<and> heuristicExploreCoefficient s' = heuristicExploreCoefficient s"
proof -
  from mono have le: "clock m (clockCalls s) \<le> clock m (Suc (clockCalls s))" by simp
  from r obtain s3 where s': "s' = countRollout ROLLOUT_RANDHEURISTIC (clock m (clockCalls s))
        (clock m (Suc (clockCalls s))) s3" and same: "sameMixture s s3"
    unfolding rolloutRandHeuristic_def readClock_def
    by (auto split: prod.splits if_splits simp: sameMixture_def)
  from same ok have "mixtureOK s3" by (simp add: sameMixture_def mixtureOK_def)
  from countRollout_ok [OF this le] same show ?thesis
    by (simp add: s' countRollout_coefficient sameMixture_def)
qed

lemma getNNBelNode_same:
  "getNNBelNode m b s = (r, s') \<Longrightarrow> sameMixture s s' \<and> clockCalls s' = Suc (clockCalls s)"
  unfolding getNNBelNode_def readClock_def
  by (auto split: prod.splits if_splits simp: sameMixture_def Let_def)

lemma getRolloutAction_ok:
  assumes r: "getRolloutAction fuel m b st sd df s = Inr (r, s')" and ok: "mixtureOK s"
    and mono: "\<forall>i j. i \<le> j \<longrightarrow> clock m i \<le> clock m j"
  shows "mixtureOK s' \<and> heuristicExploreCoefficient s' = heuristicExploreCoefficient s"
proof -
  from r obtain a where a: "nextActionToTry (node s b) = Some a"
    by (auto simp: getRolloutAction_def split: option.splits)
  obtain result g1 where gs: "generateStep m st a (randGen s) = (result, g1)" by force
  obtain u g2 where bd: "bernoulli_distribution m (heuristicProbability s ROLLOUT_RANDHEURISTIC) g1 = (u, g2)"
    by force
  define s1 where "s1 = s\<lparr>randGen := g2\<rparr>"
  have ok1: "mixtureOK s1" and c1: "heuristicExploreCoefficient s1 = heuristicExploreCoefficient s"
    using ok by (simp_all add: s1_def mixtureOK_def)
  show ?thesis
  proof (cases u)
    case True
    with r a gs bd have "rolloutRandHeuristic m result sd df s1 = Inr (r, s')"
      by (simp add: getRolloutAction_def s1_def)
    from rolloutRandHeuristic_ok [OF this ok1 mono] c1 show ?thesis by simp
  next
    case False
    define s2 where "s2 = s1\<lparr>clockCalls := Suc (clockCalls s1)\<rparr>"
    have rc: "readClock m s1 = (clock m (clockCalls s1), s2)" by (simp add: readClock_def s2_def)
    have ok2: "mixtureOK s2" and c2: "heuristicExploreCoefficient s2 = heuristicExploreCoefficient s"
      using ok1 c1 by (simp_all add: s2_def mixtureOK_def)
    obtain nn s3 where nb: "getNNBelNode m b s2 = (nn, s3)" by force
    from getNNBelNode_same [OF nb] have same3: "sameMixture s2 s3"
      and cc3: "clockCalls s3 = Suc (clockCalls s2)" by simp_all
    have ok3: "mixtureOK s3" and c3: "heuristicExploreCoefficient s3 = heuristicExploreCoefficient s"
      using ok2 c2 same3 by (simp_all add: sameMixture_def mixtureOK_def)
    show ?thesis
    proof (cases nn)
      case None
      with r a gs bd False rc nb have "rolloutRandHeuristic m result sd df s3 = Inr (r, s')"
        by (simp add: getRolloutAction_def s1_def Let_def)
      from rolloutRandHeuristic_ok [OF this ok3 mono] c3 show ?thesis by simp
    next
      case (Some n)
      with r a gs bd False rc nb obtain q g3 where
        s': "s' = countRollout ROLLOUT_POL (clock m (clockCalls s1))
                    (clock m (clockCalls s3)) (s3\<lparr>randGen := g3, clockCalls := Suc (clockCalls s3)\<rparr>)"
        by (auto simp: getRolloutAction_def s1_def Let_def readClock_def split: sum.splits)
      have "clock m (clockCalls s1) \<le> clock m (clockCalls s3)"
        using mono cc3 by (simp add: s2_def)
      moreover have "mixtureOK (s3\<lparr>randGen := g3, clockCalls := Suc (clockCalls s3)\<rparr>)"
        using ok3 by (simp add: mixtureOK_def)
      ultimately have "mixtureOK s'" unfolding s' by (rule countRollout_ok [rotated])
      then show ?thesis using c3 by (simp add: s' countRollout_coefficient)
    qed
  qed
qed

lemma Solver_ok: "mixtureOK (Solver g m ns nd sts)"
  by (simp add: mixtureOK_def Solver_def)

lemma run_ok:
  assumes "run fuel m cs s = Inr s'" and "mixtureOK s"
    and "0 < heuristicExploreCoefficient s" "heuristicExploreCoefficient s < 1"
    and "getMaxVal m \<noteq> 0" and "\<forall>i j. i \<le> j \<longrightarrow> clock m i \<le> clock m j"
  shows "mixtureOK s' \<and> heuristicExploreCoefficient s' = heuristicExploreCoefficient s"
  using assms
proof (induction cs arbitrary: s)
  case Nil
  then show ?case by simp
next
  case (Cons c cs)
  show ?case
  proof (cases c)
    case (Rollout b st sd df)
    with Cons.prems(1) obtain r s1 where
      g: "getRolloutAction fuel m b st sd df s = Inr (r, s1)" and rest: "run fuel m cs s1 = Inr s'"
      by (auto split: sum.splits)
    from getRolloutAction_ok [OF g Cons.prems(2) Cons.prems(6)]
    have "mixtureOK s1" "heuristicExploreCoefficient s1 = heuristicExploreCoefficient s" by simp_all
    with Cons.IH [OF rest] Cons.prems show ?thesis by simp
  next
    case (Update v)
    with Cons.prems(1) obtain s1 where
      u: "updateHeuristicProbabilities m v s = Inr s1" and rest: "run fuel m cs s1 = Inr s'"
      by (auto split: sum.splits)
    from update_ok [OF Cons.prems(2,3,4,5), of v] u
    have "mixtureOK s1" "heuristicExploreCoefficient s1 = heuristicExploreCoefficient s" by simp_all
    with Cons.IH [OF rest] Cons.prems show ?thesis by simp
  qed
qed

text \<open>
  After any calls of \<^verbatim>\<open>getRolloutAction\<close> and \<^verbatim>\<open>updateHeuristicProbabilities\<close> on
  a new solver, with an exploration coefficient strictly between 0 and 1, a clock that
  does not go back, and a maximum value of the Model that is not zero, a further update
  returns, and leaves two probabilities that are positive and add up to 1.
\<close>

theorem mixture_invariant:
  assumes "0 < getHeuristicExploreCoefficient m" "getHeuristicExploreCoefficient m < 1"
    and "getMaxVal m \<noteq> 0" and "\<forall>i j. i \<le> j \<longrightarrow> clock m i \<le> clock m j"
    and "run fuel m cs (Solver g m ns nd sts) = Inr s"
  shows "\<exists>s'. updateHeuristicProbabilities m valImprovement s = Inr s'
     \<and> heuristicProbability s' ROLLOUT_RANDHEURISTIC + heuristicProbability s' ROLLOUT_POL = 1
     \<and> 0 < heuristicProbability s' ROLLOUT_RANDHEURISTIC \<and> 0 < heuristicProbability s' ROLLOUT_POL"
proof -
  have c: "heuristicExploreCoefficient (Solver g m ns nd sts) = getHeuristicExploreCoefficient m"
    by (simp add: Solver_def)
  from run_ok [OF assms(5) Solver_ok] assms(1-4) c
  have "mixtureOK s" "heuristicExploreCoefficient s = getHeuristicExploreCoefficient m" by simp_all
  with update_ok [of s m valImprovement] assms(1-3) show ?thesis by auto
qed

theorem mixture_invariant_witness:
  "\<exists>s'. updateHeuristicProbabilities (sampleEnvironment 10 (\<lambda>k. 0)) 0
       (Solver [] (sampleEnvironment 10 (\<lambda>k. 0)) [] sampleNodes []) = Inr s'
     \<and> heuristicProbability s' ROLLOUT_RANDHEURISTIC + heuristicProbability s' ROLLOUT_POL = 1
     \<and> 0 < heuristicProbability s' ROLLOUT_RANDHEURISTIC \<and> 0 < heuristicProbability s' ROLLOUT_POL"
proof -
  let ?m = "sampleEnvironment 10 (\<lambda>k. 0)"
  have "0 < getHeuristicExploreCoefficient ?m" "getHeuristicExploreCoefficient ?m < 1"
    "getMaxVal ?m \<noteq> 0" "\<forall>i j. i \<le> j \<longrightarrow> clock ?m i \<le> clock ?m j"
    "run 0 ?m [] (Solver [] ?m [] sampleNodes []) = Inr (Solver [] ?m [] sampleNodes [])"
    by (simp_all add: sampleEnvironment_def)
  from mixture_invariant [OF this] show ?thesis .
qed

text \<open>
  Claim C8 fails on the code for a Model whose \<^verbatim>\<open>getMaxVal()\<close> is zero, as that of
  \<^verbatim>\<open>Nav2DModel\<close> is: the first update of a new solver divides the improvement by it,
  and leaves no probabilities in the real numbers.
\<close>

theorem mixture_update_zero_maxVal:
  "getMaxVal (sampleEnvironment 0 (\<lambda>k. 0)) = 0
   \<and> updateHeuristicProbabilities (sampleEnvironment 0 (\<lambda>k. 0)) 0
       (Solver [] (sampleEnvironment 0 (\<lambda>k. 0)) [] sampleNodes []) = Inl NonFinite"
  by (simp add: updateHeuristicProbabilities_def sampleEnvironment_def)

section \<open>Where a rollout is counted\<close>

lemma getNNBelNode_randGen:
  "getNNBelNode m b s = (r, s') \<Longrightarrow> randGen s' = randGen s"
  unfolding getNNBelNode_def readClock_def
  by (auto split: prod.splits if_splits simp: Let_def)

lemma rolloutPolHelper_stop:
  "(case c of None \<Rightarrow> True | Some x \<Rightarrow> particles (nd x) = [] \<or> nActChildren (nd x) = 0)
   \<Longrightarrow> rolloutPolHelper (Suc fuel) m nd c st df g = Inr (0, g)"
  by (auto split: option.splits)

lemma rolloutPolHelper_descend:
  "particles (nd x) \<noteq> [] \<Longrightarrow> nActChildren (nd x) \<noteq> 0 \<Longrightarrow> bestAction (nd x) = Some b
   \<Longrightarrow> generateStep m st b g = (res, g1)
   \<Longrightarrow> rolloutPolHelper (Suc fuel) m nd (Some x) st df g =
        (if stepIsTerminal res then Inr (stepReward res, g1)
         else (case rolloutPolHelper fuel m nd (getChild (nd x) b (stepObservation res))
                      (stepNextState res) df g1 of
                 Inl f \<Rightarrow> Inl f
               | Inr (r, g2) \<Rightarrow> Inr (stepReward res + df * r, g2)))"
  by simp

text \<open>
  Claim C6, as the code has it. Let the policy mode be drawn (the Bernoulli draw false).
  When \<^verbatim>\<open>getNNBelNode\<close> finds no neighbour, the rollout is the heuristic one, with the
  heuristic value of the next state as its estimate, and it is counted, with its time,
  under \<open>ROLLOUT_RANDHEURISTIC\<close>. When a neighbour is found, then whatever the descent
  from its child returns, after however many levels, the rollout has that value for its
  estimate and is counted, with its time, under \<open>ROLLOUT_POL\<close>, and nothing is
  counted under \<open>ROLLOUT_RANDHEURISTIC\<close>; so it is when the first node of the
  descent is missing, or has no particles or no children, where the estimate is 0. At
  each level, the descent returns 0 at a node that is missing or has no particles or no
  children, and otherwise steps with the best action of the node and adds the reward
  of the step to the discounted value of the rest of the descent.
\<close>

theorem rollout_downgrade:
  assumes a: "nextActionToTry (node s belNode) = Some a"
    and gs: "generateStep m state a (randGen s) = (result, g1)"
    and bd: "bernoulli_distribution m (heuristicProbability s ROLLOUT_RANDHEURISTIC) g1 = (False, g2)"
    and nb: "getNNBelNode m belNode (s\<lparr>randGen := g2, clockCalls := Suc (clockCalls s)\<rparr>) = (nn, s3)"
  shows "(nn = None \<longrightarrow>
           (\<exists>s'. getRolloutAction fuel m belNode state startDiscount discountFactor s
                   = Inr ((result,
                           if stepIsTerminal result then 0
                           else fst (getHeuristicValue m (stepNextState result) g2)
                                * (startDiscount * discountFactor)), s')
              \<and> lastRolloutMode s' = ROLLOUT_RANDHEURISTIC
              \<and> heuristicUseCount s' ROLLOUT_RANDHEURISTIC = heuristicUseCount s ROLLOUT_RANDHEURISTIC + 1
              \<and> heuristicUseCount s' ROLLOUT_POL = heuristicUseCount s ROLLOUT_POL
              \<and> timeUsedPerHeuristic s' ROLLOUT_RANDHEURISTIC
                   = timeUsedPerHeuristic s ROLLOUT_RANDHEURISTIC
                     + real_of_int (clock m (clockCalls s + 3) - clock m (clockCalls s + 2)) * 1000
                       / real_of_int CLOCKS_PER_SEC
              \<and> timeUsedPerHeuristic s' ROLLOUT_POL = timeUsedPerHeuristic s ROLLOUT_POL))
       \<and> (\<forall>n r g3. nn = Some n \<and>
             rolloutPolHelper fuel m (node s3) (getChild (node s3 n) a (stepObservation result))
               (stepNextState result) discountFactor g2 = Inr (r, g3) \<longrightarrow>
           (\<exists>s'. getRolloutAction fuel m belNode state startDiscount discountFactor s
                   = Inr ((result, r * (startDiscount * discountFactor)), s')
              \<and> lastRolloutMode s' = ROLLOUT_POL
              \<and> heuristicUseCount s' ROLLOUT_POL = heuristicUseCount s ROLLOUT_POL + 1
              \<and> heuristicUseCount s' ROLLOUT_RANDHEURISTIC = heuristicUseCount s ROLLOUT_RANDHEURISTIC
              \<and> timeUsedPerHeuristic s' ROLLOUT_POL
                   = timeUsedPerHeuristic s ROLLOUT_POL
                     + real_of_int (clock m (clockCalls s + 2) - clock m (clockCalls s)) * 1000
                       / real_of_int CLOCKS_PER_SEC
              \<and> timeUsedPerHeuristic s' ROLLOUT_RANDHEURISTIC
                   = timeUsedPerHeuristic s ROLLOUT_RANDHEURISTIC))
       \<and> (\<forall>n. nn = Some n \<longrightarrow>
             (case getChild (node s3 n) a (stepObservation result) of
                None \<Rightarrow> True
              | Some c \<Rightarrow> particles (node s3 c) = [] \<or> nActChildren (node s3 c) = 0) \<longrightarrow>
           (\<exists>s'. getRolloutAction (Suc fuel) m belNode state startDiscount discountFactor s
                         = Inr ((result, 0), s')
              \<and> lastRolloutMode s' = ROLLOUT_POL
              \<and> heuristicUseCount s' ROLLOUT_POL = heuristicUseCount s ROLLOUT_POL + 1
              \<and> heuristicUseCount s' ROLLOUT_RANDHEURISTIC = heuristicUseCount s ROLLOUT_RANDHEURISTIC))
       \<and> (\<forall>k nd c st g.
             (case c of None \<Rightarrow> True
              | Some x \<Rightarrow> particles (nd x) = [] \<or> nActChildren (nd x) = 0) \<longrightarrow>
             rolloutPolHelper (Suc k) m nd c st discountFactor g = Inr (0, g))
       \<and> (\<forall>k nd x b st g res g'.
             particles (nd x) \<noteq> [] \<and> nActChildren (nd x) \<noteq> 0 \<and> bestAction (nd x) = Some b
             \<and> generateStep m st b g = (res, g') \<longrightarrow>
             rolloutPolHelper (Suc k) m nd (Some x) st discountFactor g =
               (if stepIsTerminal res then Inr (stepReward res, g')
                else (case rolloutPolHelper k m nd (getChild (nd x) b (stepObservation res))
                             (stepNextState res) discountFactor g' of
                        Inl f \<Rightarrow> Inl f
                      | Inr (r, g'') \<Rightarrow> Inr (stepReward res + discountFactor * r, g''))))"
proof -
  have rc: "readClock m (s\<lparr>randGen := g2\<rparr>)
      = (clock m (clockCalls s), s\<lparr>randGen := g2, clockCalls := Suc (clockCalls s)\<rparr>)"
    by (simp add: readClock_def)
  from getNNBelNode_same [OF nb] have same: "sameMixture s s3"
    and cc: "clockCalls s3 = Suc (Suc (clockCalls s))"
    by (simp_all add: sameMixture_def)
  from getNNBelNode_randGen [OF nb] have rg: "randGen s3 = g2" by simp
  have n3: "clockCalls s + 3 = Suc (Suc (Suc (clockCalls s)))"
    and n2: "clockCalls s + 2 = Suc (Suc (clockCalls s))" by simp_all
  have unfold: "getRolloutAction f m belNode state startDiscount discountFactor s =
     (case nn of
        None \<Rightarrow> rolloutRandHeuristic m result startDiscount discountFactor s3
      | Some n \<Rightarrow>
          (case rolloutPolHelper f m (node s3) (getChild (node s3 n) a (stepObservation result))
                  (stepNextState result) discountFactor g2 of
             Inl f \<Rightarrow> Inl f
           | Inr (r, g3) \<Rightarrow>
               (case readClock m (s3\<lparr>randGen := g3\<rparr>) of (endT, s4) \<Rightarrow>
                  Inr ((result, r * (startDiscount * discountFactor)),
                       countRollout ROLLOUT_POL (clock m (clockCalls s)) endT s4))))" for f
    using a gs bd nb rc rg by (simp add: getRolloutAction_def Let_def split: option.splits)
  have A: "nn = None \<longrightarrow>
           (\<exists>s'. getRolloutAction fuel m belNode state startDiscount discountFactor s
                   = Inr ((result,
                           if stepIsTerminal result then 0
                           else fst (getHeuristicValue m (stepNextState result) g2)
                                * (startDiscount * discountFactor)), s')
              \<and> lastRolloutMode s' = ROLLOUT_RANDHEURISTIC
              \<and> heuristicUseCount s' ROLLOUT_RANDHEURISTIC = heuristicUseCount s ROLLOUT_RANDHEURISTIC + 1
              \<and> heuristicUseCount s' ROLLOUT_POL = heuristicUseCount s ROLLOUT_POL
              \<and> timeUsedPerHeuristic s' ROLLOUT_RANDHEURISTIC
                   = timeUsedPerHeuristic s ROLLOUT_RANDHEURISTIC
                     + real_of_int (clock m (clockCalls s + 3) - clock m (clockCalls s + 2)) * 1000
                       / real_of_int CLOCKS_PER_SEC
              \<and> timeUsedPerHeuristic s' ROLLOUT_POL = timeUsedPerHeuristic s ROLLOUT_POL)"
    using same cc rg
    by (auto simp: unfold rolloutRandHeuristic_def readClock_def countRollout_def sameMixture_def
        n2 n3 split: prod.splits)
  have B: "\<forall>n r g3. nn = Some n \<and>
             rolloutPolHelper fuel m (node s3) (getChild (node s3 n) a (stepObservation result))
               (stepNextState result) discountFactor g2 = Inr (r, g3) \<longrightarrow>
           (\<exists>s'. getRolloutAction fuel m belNode state startDiscount discountFactor s
                   = Inr ((result, r * (startDiscount * discountFactor)), s')
              \<and> lastRolloutMode s' = ROLLOUT_POL
              \<and> heuristicUseCount s' ROLLOUT_POL = heuristicUseCount s ROLLOUT_POL + 1
              \<and> heuristicUseCount s' ROLLOUT_RANDHEURISTIC = heuristicUseCount s ROLLOUT_RANDHEURISTIC
              \<and> timeUsedPerHeuristic s' ROLLOUT_POL
                   = timeUsedPerHeuristic s ROLLOUT_POL
                     + real_of_int (clock m (clockCalls s + 2) - clock m (clockCalls s)) * 1000
                       / real_of_int CLOCKS_PER_SEC
              \<and> timeUsedPerHeuristic s' ROLLOUT_RANDHEURISTIC
                   = timeUsedPerHeuristic s ROLLOUT_RANDHEURISTIC)"
    using same cc
    by (auto simp: unfold readClock_def countRollout_def sameMixture_def n2 n3)
  have C: "\<forall>n. nn = Some n \<longrightarrow>
             (case getChild (node s3 n) a (stepObservation result) of
                None \<Rightarrow> True
              | Some c \<Rightarrow> particles (node s3 c) = [] \<or> nActChildren (node s3 c) = 0) \<longrightarrow>
           (\<exists>s'. getRolloutAction (Suc fuel) m belNode state startDiscount discountFactor s
                         = Inr ((result, 0), s')
              \<and> lastRolloutMode s' = ROLLOUT_POL
              \<and> heuristicUseCount s' ROLLOUT_POL = heuristicUseCount s ROLLOUT_POL + 1
              \<and> heuristicUseCount s' ROLLOUT_RANDHEURISTIC = heuristicUseCount s ROLLOUT_RANDHEURISTIC)"
    using same cc
    by (auto simp: unfold readClock_def countRollout_def sameMixture_def n2 n3
        split: option.splits)
  have D: "\<forall>k nd c st g.
             (case c of None \<Rightarrow> True
              | Some x \<Rightarrow> particles (nd x) = [] \<or> nActChildren (nd x) = 0) \<longrightarrow>
             rolloutPolHelper (Suc k) m nd c st discountFactor g = Inr (0, g)"
    by (intro allI impI) (rule rolloutPolHelper_stop)
  have E: "\<forall>k nd x b st g res g'.
             particles (nd x) \<noteq> [] \<and> nActChildren (nd x) \<noteq> 0 \<and> bestAction (nd x) = Some b
             \<and> generateStep m st b g = (res, g') \<longrightarrow>
             rolloutPolHelper (Suc k) m nd (Some x) st discountFactor g =
               (if stepIsTerminal res then Inr (stepReward res, g')
                else (case rolloutPolHelper k m nd (getChild (nd x) b (stepObservation res))
                             (stepNextState res) discountFactor g' of
                        Inl f \<Rightarrow> Inl f
                      | Inr (r, g'') \<Rightarrow> Inr (stepReward res + discountFactor * r, g'')))"
    by (intro allI impI) (rule rolloutPolHelper_descend, simp_all)
  from A B C D E show ?thesis by (intro conjI)
qed

theorem rollout_downgrade_witness:
  "rolloutSummary (getRolloutAction 1 (sampleEnvironment 10 (\<lambda>k. 0)) 0 0 1 1
      (Solver [3 / 4] (sampleEnvironment 10 (\<lambda>k. 0)) [] sampleNodes []))
     = Some (5, ROLLOUT_RANDHEURISTIC, 2, 1)
   \<and> rolloutSummary (getRolloutAction 1 (sampleEnvironment 10 (\<lambda>k. 0)) 0 0 1 1
      (Solver [3 / 4] (sampleEnvironment 10 (\<lambda>k. 0)) [0, 1] sampleNodes []))
     = Some (0, ROLLOUT_POL, 1, 2)
   \<and> rolloutSummary (getRolloutAction 2 (sampleEnvironment 10 (\<lambda>k. 0)) 0 0 1 1
      (Solver [3 / 4] (sampleEnvironment 10 (\<lambda>k. 0)) [0, 1] deepNodes []))
     = Some (1, ROLLOUT_POL, 1, 2)"
proof -
  let ?m = "sampleEnvironment 10 (\<lambda>k. 0)"
  let ?res = "\<lparr>stepAction = 0, stepObservation = 0, stepReward = 1,
               stepNextState = 0, stepIsTerminal = False\<rparr>"
  let ?s = "Solver [3 / 4] ?m [] sampleNodes []"
  let ?t = "Solver [3 / 4] ?m [0, 1] sampleNodes []"
  let ?u = "Solver [3 / 4] ?m [0, 1] deepNodes []"
  have a: "nextActionToTry (node ?s 0) = Some 0" "nextActionToTry (node ?t 0) = Some 0"
    "nextActionToTry (node ?u 0) = Some 0"
    by (simp_all add: Solver_def sampleNodes_def deepNodes_def sampleNode_def)
  have gs: "generateStep ?m 0 0 (randGen ?s) = (?res, [3 / 4])"
    "generateStep ?m 0 0 (randGen ?t) = (?res, [3 / 4])"
    "generateStep ?m 0 0 (randGen ?u) = (?res, [3 / 4])"
    by (simp_all add: Solver_def sampleEnvironment_def)
  have bd: "bernoulli_distribution ?m (heuristicProbability ?s ROLLOUT_RANDHEURISTIC) [3 / 4]
              = (False, [])"
    "bernoulli_distribution ?m (heuristicProbability ?t ROLLOUT_RANDHEURISTIC) [3 / 4]
              = (False, [])"
    "bernoulli_distribution ?m (heuristicProbability ?u ROLLOUT_RANDHEURISTIC) [3 / 4]
              = (False, [])"
    by (simp_all add: Solver_def sampleEnvironment_def)
  obtain s3 where nbs: "getNNBelNode ?m 0 (?s\<lparr>randGen := [], clockCalls := Suc (clockCalls ?s)\<rparr>)
      = (None, s3)"
    by (simp add: getNNBelNode_def Solver_def sampleEnvironment_def readClock_def Let_def)
  obtain t3 where nbt: "getNNBelNode ?m 0 (?t\<lparr>randGen := [], clockCalls := Suc (clockCalls ?t)\<rparr>)
      = (Some 1, t3)" and t3: "node t3 (Suc 0) = sampleNodes 1" "node t3 2 = sampleNodes 2"
    by (simp add: getNNBelNode_def Solver_def sampleEnvironment_def readClock_def Let_def
        sampleNodes_def sampleNode_def)
  obtain u3 where nbu: "getNNBelNode ?m 0 (?u\<lparr>randGen := [], clockCalls := Suc (clockCalls ?u)\<rparr>)
      = (Some 1, u3)" and u3: "node u3 (Suc 0) = deepNodes 1" "node u3 2 = deepNodes 2"
      "node u3 3 = deepNodes 3"
    by (simp add: getNNBelNode_def Solver_def sampleEnvironment_def readClock_def Let_def
        deepNodes_def sampleNode_def)
  from rollout_downgrade [OF a(1) gs(1) bd(1) nbs, of 1 1 1]
  obtain s' where
    r1: "getRolloutAction 1 ?m 0 0 1 1 ?s
           = Inr ((?res, if stepIsTerminal ?res then 0
                         else fst (getHeuristicValue ?m (stepNextState ?res) []) * (1 * 1)), s')"
    "lastRolloutMode s' = ROLLOUT_RANDHEURISTIC"
    "heuristicUseCount s' ROLLOUT_RANDHEURISTIC = heuristicUseCount ?s ROLLOUT_RANDHEURISTIC + 1"
    "heuristicUseCount s' ROLLOUT_POL = heuristicUseCount ?s ROLLOUT_POL"
    by auto
  have q: "(if stepIsTerminal ?res then 0
            else fst (getHeuristicValue ?m (stepNextState ?res) []) * (1 * 1)) = (5::real)"
    by (simp add: sampleEnvironment_def)
  have ch: "case getChild (node t3 1) 0 (stepObservation ?res) of None \<Rightarrow> True
       | Some c \<Rightarrow> particles (node t3 c) = [] \<or> nActChildren (node t3 c) = 0"
    by (simp add: t3 sampleNodes_def sampleNode_def)
  from rollout_downgrade [OF a(2) gs(2) bd(2) nbt, of 0 1 1] ch
  obtain t' where
    r2: "getRolloutAction (Suc 0) ?m 0 0 1 1 ?t = Inr ((?res, 0), t')"
    "lastRolloutMode t' = ROLLOUT_POL"
    "heuristicUseCount t' ROLLOUT_POL = heuristicUseCount ?t ROLLOUT_POL + 1"
    "heuristicUseCount t' ROLLOUT_RANDHEURISTIC = heuristicUseCount ?t ROLLOUT_RANDHEURISTIC"
    by auto
  have "rolloutPolHelper (Suc (Suc 0)) ?m (node u3) (getChild (node u3 1) 0 (stepObservation ?res))
              (stepNextState ?res) 1 [] = Inr (1, [])"
    by (simp add: u3 deepNodes_def sampleNode_def sampleEnvironment_def)
  then have de: "rolloutPolHelper 2 ?m (node u3) (getChild (node u3 1) 0 (stepObservation ?res))
              (stepNextState ?res) 1 [] = Inr (1, [])"
    by (simp only: numeral_2_eq_2)
  from rollout_downgrade [OF a(3) gs(3) bd(3) nbu, of 2 1 1] de
  obtain u' where
    r3: "getRolloutAction 2 ?m 0 0 1 1 ?u = Inr ((?res, 1 * (1 * 1)), u')"
    "lastRolloutMode u' = ROLLOUT_POL"
    "heuristicUseCount u' ROLLOUT_POL = heuristicUseCount ?u ROLLOUT_POL + 1"
    "heuristicUseCount u' ROLLOUT_RANDHEURISTIC = heuristicUseCount ?u ROLLOUT_RANDHEURISTIC"
    by blast
  from r1 q r2 r3 show ?thesis
    by (simp add: rolloutSummary_def Solver_def)
qed

text \<open>
  Claim C6 as stated fails: with a neighbour whose child has no particles and no
  children, the rollout is counted under \<open>ROLLOUT_POL\<close>, whose use count goes from 1
  to 2, and not under \<open>ROLLOUT_RANDHEURISTIC\<close>.
\<close>

theorem rollout_no_downgrade_counterexample:
  "rolloutSummary (getRolloutAction 1 (sampleEnvironment 10 (\<lambda>k. 0)) 0 0 1 1
      (Solver [3 / 4] (sampleEnvironment 10 (\<lambda>k. 0)) [0, 1] sampleNodes []))
     = Some (0, ROLLOUT_POL, 1, 2)
   \<and> getChild (sampleNodes 1) 0 0 = Some 2
   \<and> particles (sampleNodes 2) = [] \<and> nActChildren (sampleNodes 2) = 0"
  by (simp add: rolloutSummary_def getRolloutAction_def Solver_def sampleEnvironment_def
      sampleNodes_def sampleNode_def getNNBelNode_def readClock_def countRollout_def Let_def)

section \<open>What a rollout takes from the clock\<close>

lemma nnLoop_clock:
  "nnLoop (m\<lparr>clock := c\<rparr>) s b ns k md nb = nnLoop m s b ns k md nb"
  by (induction ns arbitrary: k md nb) (simp_all add: Let_def)

lemma rolloutPolHelper_clock:
  "rolloutPolHelper fuel (m\<lparr>clock := c\<rparr>) nd cn st df g = rolloutPolHelper fuel m nd cn st df g"
  by (induction fuel arbitrary: cn st g) (simp_all split: option.splits prod.splits)

lemma rolloutPolHelper_tNNComp:
  "rolloutPolHelper fuel m (nd(b := (nd b)\<lparr>tNNComp := x, nnBel := y\<rparr>)) cn st df g
   = rolloutPolHelper fuel m nd cn st df g"
  by (induction fuel arbitrary: cn st g) (simp_all split: option.splits prod.splits)

lemma eraseTimes_countRollout:
  "eraseTimes (countRollout mode t1 t2 s) =
     (eraseTimes s)\<lparr>lastRolloutMode := mode,
        heuristicUseCount := (heuristicUseCount s)(mode := heuristicUseCount s mode + 1)\<rparr>"
  by (simp add: eraseTimes_def countRollout_def)

lemma rolloutRandHeuristic_clock:
  "observable (rolloutRandHeuristic (m\<lparr>clock := c\<rparr>) result sd df s)
   = observable (rolloutRandHeuristic m result sd df s)"
  by (simp add: observable_def rolloutRandHeuristic_def readClock_def eraseTimes_countRollout
      split: prod.splits)

lemma getNNBelNode_unfold:
  assumes "nnLoop m s b (allNodes s) 0 None (nnBel (node s b)) = (minDist, nnB)"
  shows "getNNBelNode (m\<lparr>clock := c\<rparr>) b s =
     (if (case minDist of None \<Rightarrow> True | Some md \<Rightarrow> md > getMaxNnDistance m) then None else nnB,
      s\<lparr>clockCalls := Suc (clockCalls s),
        node := (node s)(b := (node s b)
           \<lparr>tNNComp := real_of_int (c (clockCalls s) - startTime m) * 1000
                         / real_of_int CLOCKS_PER_SEC,
            nnBel := nnB\<rparr>)\<rparr>)"
  using assms
  by (cases minDist) (simp_all add: getNNBelNode_def readClock_def nnLoop_clock Let_def)

text \<open>
  Claim C4, as the code has it. The solver reads the processor clock as well as the
  generator. Within one call of \<^verbatim>\<open>getRolloutAction\<close> the readings go nowhere but into
  \<^verbatim>\<open>timeUsedPerHeuristic_\<close> and \<^verbatim>\<open>tNNComp_\<close>: under any two clocks, the same state
  and generator give the same failure or the same step, estimate, mode, use counts,
  generator and tree, up to those two fields.
\<close>

theorem rollout_clock_independent:
  "observable (getRolloutAction fuel (m\<lparr>clock := c1\<rparr>) belNode state startDiscount discountFactor s)
   = observable (getRolloutAction fuel (m\<lparr>clock := c2\<rparr>) belNode state startDiscount discountFactor s)"
proof (cases "nextActionToTry (node s belNode)")
  case None
  then show ?thesis by (simp add: getRolloutAction_def)
next
  case (Some a)
  obtain result g1 where gs: "generateStep m state a (randGen s) = (result, g1)" by force
  obtain u g2 where bd: "bernoulli_distribution m (heuristicProbability s ROLLOUT_RANDHEURISTIC) g1 = (u, g2)"
    by force
  show ?thesis
  proof (cases u)
    case True
    with Some gs bd show ?thesis
      by (simp add: getRolloutAction_def rolloutRandHeuristic_clock)
  next
    case False
    define s2 where "s2 = s\<lparr>randGen := g2, clockCalls := Suc (clockCalls s)\<rparr>"
    obtain minDist nnB where
      nl: "nnLoop m s2 belNode (allNodes s2) 0 None (nnBel (node s2 belNode)) = (minDist, nnB)"
      by force
    note nb = getNNBelNode_unfold [OF nl]
    define nn where "nn = (if (case minDist of None \<Rightarrow> True | Some md \<Rightarrow> md > getMaxNnDistance m)
                            then None else nnB)"
    show ?thesis
    proof (cases nn)
      case None
      with Some gs bd False show ?thesis
        by (simp add: getRolloutAction_def readClock_def nb s2_def [symmetric] nn_def [symmetric]
            Let_def observable_def rolloutRandHeuristic_def eraseTimes_countRollout
            split: prod.splits)
           (auto simp: eraseTimes_def fun_eq_iff s2_def)
    next
      case (Some n)
      with \<open>nextActionToTry (node s belNode) = Some a\<close> gs bd False show ?thesis
        by (simp add: getRolloutAction_def readClock_def nb s2_def [symmetric] nn_def [symmetric]
            Let_def observable_def rolloutPolHelper_clock rolloutPolHelper_tNNComp
            eraseTimes_countRollout split: prod.splits option.splits sum.splits)
           (auto simp: eraseTimes_def fun_eq_iff s2_def)
    qed
  qed
qed

text \<open>
  Claim C4 as stated fails: two runs that draw the same numbers from the generator,
  under a clock that stands still and under one that advances, differ in their second
  rollout, in its mode and in the estimate it returns.
\<close>

theorem same_seed_counterexample:
  "secondRollout (\<lambda>k. 0) = Some (5, ROLLOUT_RANDHEURISTIC, 3, 1)
   \<and> secondRollout (\<lambda>k. 3000 * int k) = Some (0, ROLLOUT_POL, 2, 2)"
  by (simp add: secondRollout_def rolloutSummary_def getRolloutAction_def Solver_def sampleEnvironment_def
      sampleNodes_def sampleNode_def getNNBelNode_def readClock_def countRollout_def Let_def
      rolloutRandHeuristic_def updateHeuristicProbabilities_def CLOCKS_PER_SEC_def)

end
